theory Spec2Isabelle
  imports Main "HOL-Library.Word" "HOL-Library.Char_ord" "HOL-Library.List_Lexorder"
    "HOL-Library.Multiset" "HOL-Library.AList"
begin

section \<open>Go strings and the standard-library functions the program calls\<close>

text \<open>
  A Go string is a sequence of bytes, and \<open>v[pos]\<close> reads one byte: a string is a
  \<^typ>\<open>char list\<close>, a \<^typ>\<open>char\<close> being one byte. Positions are Go \<open>int\<close>s that the
  program keeps between 0 and \<open>len(v)\<close>; they are natural numbers here.
\<close>

definition byte :: "char \<Rightarrow> nat" where
  "byte c = of_char c"

text \<open>
  The package \<open>camelcase\<close> classifies \<open>rune(v[pos])\<close>, the code point whose number is
  the byte, so only the Latin-1 rows of Go's Unicode tables are ever consulted:
  \<open>unicode.IsDigit\<close> is 0-9 there; \<open>unicode.IsNumber\<close> adds the superscripts and
  fractions of Latin-1; \<open>unicode.IsUpper\<close>, \<open>unicode.IsLower\<close> hold of the letters of
  category Lu, Ll; \<open>unicode.IsSpace\<close> of the eight Latin-1 white-space code points.
\<close>

definition IsDigit :: "char \<Rightarrow> bool" where
  "IsDigit c = (48 \<le> byte c \<and> byte c \<le> 57)"

definition IsNumber :: "char \<Rightarrow> bool" where
  "IsNumber c = ((48 \<le> byte c \<and> byte c \<le> 57) \<or> byte c = 178 \<or> byte c = 179 \<or> byte c = 185
     \<or> (188 \<le> byte c \<and> byte c \<le> 190))"

definition IsUpper :: "char \<Rightarrow> bool" where
  "IsUpper c = ((65 \<le> byte c \<and> byte c \<le> 90) \<or> (192 \<le> byte c \<and> byte c \<le> 214)
     \<or> (216 \<le> byte c \<and> byte c \<le> 222))"

definition IsLower :: "char \<Rightarrow> bool" where
  "IsLower c = ((97 \<le> byte c \<and> byte c \<le> 122) \<or> byte c = 181 \<or> (223 \<le> byte c \<and> byte c \<le> 246)
     \<or> (248 \<le> byte c \<and> byte c \<le> 255))"

definition IsSpace :: "char \<Rightarrow> bool" where
  "IsSpace c = (byte c = 9 \<or> byte c = 10 \<or> byte c = 11 \<or> byte c = 12 \<or> byte c = 13
     \<or> byte c = 32 \<or> byte c = 133 \<or> byte c = 160)"

text \<open>
  \<open>utf8.ValidString\<close>: every byte below 0x80 stands alone; a lead byte C2-DF, E0-EF,
  F0-F4 is followed by one, two, three continuation bytes 80-BF, the first of them in
  a narrower range after E0, ED, F0 and F4; every other byte is invalid.
  \<open>utf8_seqLen\<close> is the length of the well-formed sequence at the head of the bytes,
  0 when there is none.
\<close>

definition cont :: "nat \<Rightarrow> bool" where
  "cont b = (128 \<le> b \<and> b \<le> 191)"

fun utf8_seqLen :: "nat list \<Rightarrow> nat" where
  "utf8_seqLen [] = 0"
| "utf8_seqLen (b # bs) =
     (if b < 128 then 1
      else if 194 \<le> b \<and> b \<le> 223 then
        (case bs of c1 # _ \<Rightarrow> if cont c1 then 2 else 0 | _ \<Rightarrow> 0)
      else if 224 \<le> b \<and> b \<le> 239 then
        (case bs of c1 # c2 # _ \<Rightarrow>
           if (if b = 224 then 160 \<le> c1 \<and> c1 \<le> 191
               else if b = 237 then 128 \<le> c1 \<and> c1 \<le> 159 else cont c1) \<and> cont c2
           then 3 else 0
         | _ \<Rightarrow> 0)
      else if 240 \<le> b \<and> b \<le> 244 then
        (case bs of c1 # c2 # c3 # _ \<Rightarrow>
           if (if b = 240 then 144 \<le> c1 \<and> c1 \<le> 191
               else if b = 244 then 128 \<le> c1 \<and> c1 \<le> 143 else cont c1) \<and> cont c2 \<and> cont c3
           then 4 else 0
         | _ \<Rightarrow> 0)
      else 0)"

function utf8_valid :: "nat list \<Rightarrow> bool" where
  "utf8_valid bs =
     (if bs = [] then True
      else if utf8_seqLen bs = 0 then False
      else utf8_valid (drop (utf8_seqLen bs) bs))"
  by pat_completeness auto
termination
  by (relation "measure length") auto

definition ValidString :: "string \<Rightarrow> bool" where
  "ValidString v = utf8_valid (map byte v)"

text \<open>
  A panic is the value \<open>None\<close>. The slice expression \<open>s[lo:hi]\<close> of a string or a
  slice panics unless \<open>lo \<le> hi \<le> len(s)\<close>, the index expression \<open>s[i]\<close> unless
  \<open>i < len(s)\<close>.
\<close>

definition slice :: "'a list \<Rightarrow> nat \<Rightarrow> nat \<Rightarrow> 'a list option" where
  "slice s lo hi = (if lo \<le> hi \<and> hi \<le> length s then Some (take (hi - lo) (drop lo s)) else None)"

definition index :: "'a list \<Rightarrow> nat \<Rightarrow> 'a option" where
  "index s i = (if i < length s then Some (s ! i) else None)"

text \<open>
  \<open>strings.ToLower\<close>: a string of ASCII bytes only has its letters A-Z replaced by
  a-z; any other string is mapped rune by rune through Go's Unicode tables, which are
  not part of the program: that mapping is the parameter \<open>U\<close>.
\<close>

definition asciiLower :: "char \<Rightarrow> char" where
  "asciiLower c = (if 65 \<le> byte c \<and> byte c \<le> 90 then char_of (byte c + 32) else c)"

definition ToLower :: "(string \<Rightarrow> string) \<Rightarrow> string \<Rightarrow> string" where
  "ToLower U s = (if list_all (\<lambda>c. byte c < 128) s then map asciiLower s else U s)"

text \<open>\<open>strings.Join(elems, sep)\<close>.\<close>

fun Join :: "string list \<Rightarrow> string \<Rightarrow> string" where
  "Join [] sep = []"
| "Join [w] sep = w"
| "Join (w # ws) sep = w @ sep @ Join ws sep"

text \<open>
  \<open>strings.Index(s, substr)\<close> is the position of the first occurrence of \<open>substr\<close> in
  \<open>s\<close>, \<open>strings.LastIndex\<close> that of the last one, both \<open>-1\<close> when there is none;
  \<open>strings.Contains(s, substr)\<close> is \<open>Index(s, substr) >= 0\<close>.
\<close>

fun indexFrom :: "string \<Rightarrow> string \<Rightarrow> nat \<Rightarrow> int" where
  "indexFrom [] substr i = (if substr = [] then int i else - 1)"
| "indexFrom (c # s) substr i =
     (if take (length substr) (c # s) = substr then int i else indexFrom s substr (i + 1))"

definition Index :: "string \<Rightarrow> string \<Rightarrow> int" where
  "Index s substr = indexFrom s substr 0"

definition Contains :: "string \<Rightarrow> string \<Rightarrow> bool" where
  "Contains s substr = (0 \<le> Index s substr)"

fun lastIndexFrom :: "string \<Rightarrow> string \<Rightarrow> nat \<Rightarrow> int" where
  "lastIndexFrom s substr 0 = (if take (length substr) s = substr then 0 else - 1)"
| "lastIndexFrom s substr (Suc i) =
     (if take (length substr) (drop (Suc i) s) = substr then int (Suc i)
      else lastIndexFrom s substr i)"

definition LastIndex :: "string \<Rightarrow> string \<Rightarrow> int" where
  "LastIndex s substr =
     (if length substr \<le> length s then lastIndexFrom s substr (length s - length substr)
      else - 1)"

text \<open>
  \<open>strings.ContainsRune(s, r)\<close> for a rune \<open>r\<close> below 0x80, which is one byte.
\<close>

definition ContainsRune :: "string \<Rightarrow> char \<Rightarrow> bool" where
  "ContainsRune s r = (r \<in> set s)"

text \<open>
  \<open>strings.Split(s, sep)\<close> for a separator of one byte, the only kind the program
  passes: the pieces of \<open>s\<close> between the occurrences of the separator, one more than
  there are occurrences.
\<close>

fun strings_Split :: "string \<Rightarrow> char \<Rightarrow> string list" where
  "strings_Split [] sep = [[]]"
| "strings_Split (c # s) sep =
     (if c = sep then [] # strings_Split s sep
      else (case strings_Split s sep of
              w # ws \<Rightarrow> (c # w) # ws
            | [] \<Rightarrow> [[c]]))"

text \<open>
  A Go slice is \<open>nil\<close> or holds elements; \<open>len\<close> and \<open>range\<close> treat \<open>nil\<close> as
  empty, \<open>append\<close> to \<open>nil\<close> allocates, and \<open>reflect.DeepEqual\<close>, which the tests
  compare results with, tells \<open>nil\<close> from an empty slice.
\<close>

datatype 'a slice = NilSlice | Slice "'a list"

fun elems :: "'a slice \<Rightarrow> 'a list" where
  "elems NilSlice = []"
| "elems (Slice xs) = xs"

definition append1 :: "'a slice \<Rightarrow> 'a \<Rightarrow> 'a slice" where
  "append1 s x = Slice (elems s @ [x])"

section \<open>Package camelcase\<close>

text \<open>
  The three \<open>get...EndPos\<close> functions run the same loop
  \<open>for idx = idx + 1; idx < len(v) && P(rune(v[idx])); idx++ {}\<close>
  and differ in the predicate; \<open>scanWhile P v idx\<close> is the value of \<open>idx\<close> when the
  loop started at \<open>idx\<close> ends.
\<close>

function scanWhile :: "(char \<Rightarrow> bool) \<Rightarrow> string \<Rightarrow> nat \<Rightarrow> nat" where
  "scanWhile P v idx = (if idx < length v \<and> P (v ! idx) then scanWhile P v (idx + 1) else idx)"
  by pat_completeness auto
termination
  by (relation "measure (\<lambda>(P, v, idx). length v - idx)") auto

declare scanWhile.simps [simp del]

definition getNumberEndPos :: "string \<Rightarrow> nat \<Rightarrow> nat" where
  "getNumberEndPos v idx = scanWhile IsNumber v (idx + 1) - 1"

definition getSpaceEndPos :: "string \<Rightarrow> nat \<Rightarrow> nat" where
  "getSpaceEndPos v idx = scanWhile IsSpace v (idx + 1) - 1"

definition getWordEndPos :: "string \<Rightarrow> nat \<Rightarrow> nat" where
  "getWordEndPos v idx =
     (if idx + 1 < length v \<and> IsUpper (v ! (idx + 1)) then
        (let idx' = scanWhile IsUpper v (idx + 1) in
         if idx' < length v then
           (if IsDigit (v ! idx') then idx' - 1 else idx' - 2)
         else idx' - 1)
      else scanWhile IsLower v (idx + 1) - 1)"

lemma scanWhile_True:
  "idx < length v \<Longrightarrow> P (v ! idx) \<Longrightarrow> scanWhile P v idx = scanWhile P v (idx + 1)"
  by (subst scanWhile.simps) auto

lemma scanWhile_False:
  "\<not> (idx < length v \<and> P (v ! idx)) \<Longrightarrow> scanWhile P v idx = idx"
  by (subst scanWhile.simps) auto

lemma scanWhile_ge: "idx \<le> scanWhile P v idx"
proof (induction P v idx rule: scanWhile.induct)
  case (1 P v idx)
  show ?case
  proof (cases "idx < length v \<and> P (v ! idx)")
    case True
    with 1 have "idx + 1 \<le> scanWhile P v (idx + 1)" by simp
    with True show ?thesis by (simp add: scanWhile_True)
  next
    case False
    show ?thesis using False scanWhile_False [of idx v P] by simp
  qed
qed

lemma scanWhile_le: "idx \<le> length v \<Longrightarrow> scanWhile P v idx \<le> length v"
proof (induction P v idx rule: scanWhile.induct)
  case (1 P v idx)
  show ?case
  proof (cases "idx < length v \<and> P (v ! idx)")
    case True
    with 1 have "scanWhile P v (idx + 1) \<le> length v" by simp
    with True show ?thesis by (simp add: scanWhile_True)
  next
    case False
    show ?thesis using False scanWhile_False [of idx v P] 1(2) by simp
  qed
qed

lemma scanWhile_all: "idx \<le> k \<Longrightarrow> k < scanWhile P v idx \<Longrightarrow> P (v ! k)"
proof (induction P v idx rule: scanWhile.induct)
  case (1 P v idx)
  show ?case
  proof (cases "idx < length v \<and> P (v ! idx)")
    case True
    then have eq: "scanWhile P v idx = scanWhile P v (idx + 1)"
      by (simp add: scanWhile_True)
    show ?thesis
    proof (cases "k = idx")
      case True
      with \<open>idx < length v \<and> P (v ! idx)\<close> show ?thesis by simp
    next
      case False
      with 1 True eq show ?thesis by simp
    qed
  next
    case False
    have "scanWhile P v idx = idx" using False scanWhile_False [of idx v P] by simp
    with 1 show ?thesis by simp
  qed
qed

lemma scanWhile_stop:
  "scanWhile P v idx < length v \<Longrightarrow> \<not> P (v ! scanWhile P v idx)"
proof (induction P v idx rule: scanWhile.induct)
  case (1 P v idx)
  show ?case
  proof (cases "idx < length v \<and> P (v ! idx)")
    case True
    with 1 show ?thesis by (simp add: scanWhile_True)
  next
    case False
    have "scanWhile P v idx = idx" using False scanWhile_False [of idx v P] by simp
    with 1 False show ?thesis by simp
  qed
qed

lemma scanWhile_step: "idx < length v \<Longrightarrow> P (v ! idx) \<Longrightarrow> idx + 1 \<le> scanWhile P v idx"
  using scanWhile_ge [of "idx + 1" P v] by (simp add: scanWhile_True)

lemma getNumberEndPos_bounds:
  assumes "pos < length v"
  shows "pos \<le> getNumberEndPos v pos \<and> getNumberEndPos v pos < length v"
proof -
  have "pos + 1 \<le> scanWhile IsNumber v (pos + 1)" by (rule scanWhile_ge)
  moreover have "scanWhile IsNumber v (pos + 1) \<le> length v"
    using assms by (intro scanWhile_le) simp
  ultimately show ?thesis unfolding getNumberEndPos_def by linarith
qed

lemma getSpaceEndPos_bounds:
  assumes "pos < length v"
  shows "pos \<le> getSpaceEndPos v pos \<and> getSpaceEndPos v pos < length v"
proof -
  have "pos + 1 \<le> scanWhile IsSpace v (pos + 1)" by (rule scanWhile_ge)
  moreover have "scanWhile IsSpace v (pos + 1) \<le> length v"
    using assms by (intro scanWhile_le) simp
  ultimately show ?thesis unfolding getSpaceEndPos_def by linarith
qed

text \<open>
  In the branch of \<open>getWordEndPos\<close> that returns \<open>idx - 2\<close> the loop has advanced past
  the upper-case byte at \<open>idx + 1\<close>, so the subtraction never goes below the start.
\<close>

lemma getWordEndPos_bounds:
  assumes "pos < length v"
  shows "pos \<le> getWordEndPos v pos \<and> getWordEndPos v pos < length v"
proof (cases "pos + 1 < length v \<and> IsUpper (v ! (pos + 1))")
  case True
  then have a: "pos + 2 \<le> scanWhile IsUpper v (pos + 1)"
    using scanWhile_step [of "pos + 1" v IsUpper] by simp
  have b: "scanWhile IsUpper v (pos + 1) \<le> length v"
    using True by (intro scanWhile_le) simp
  have "getWordEndPos v pos = scanWhile IsUpper v (pos + 1) - 1
      \<or> (getWordEndPos v pos = scanWhile IsUpper v (pos + 1) - 2
          \<and> scanWhile IsUpper v (pos + 1) < length v)"
    using True by (simp add: getWordEndPos_def Let_def)
  with a b show ?thesis by linarith
next
  case False
  then have c: "getWordEndPos v pos = scanWhile IsLower v (pos + 1) - 1"
    by (auto simp: getWordEndPos_def)
  have "pos + 1 \<le> scanWhile IsLower v (pos + 1)" by (rule scanWhile_ge)
  moreover have "scanWhile IsLower v (pos + 1) \<le> length v"
    using assms by (intro scanWhile_le) simp
  ultimately show ?thesis unfolding c by linarith
qed

text \<open>
  The loop of \<open>Split\<close>: \<open>pos = endPos\<close> followed by the loop's \<open>pos += 1\<close> continues at
  \<open>endPos + 1\<close>; a byte of no class is stepped over and nothing is appended.
\<close>

function splitLoop :: "string \<Rightarrow> nat \<Rightarrow> nat list \<Rightarrow> nat list" where
  "splitLoop v pos wordIndexes =
     (if pos < length v then
        (if IsNumber (v ! pos) then
           (let endPos = getNumberEndPos v pos
            in splitLoop v (endPos + 1) (wordIndexes @ [endPos + 1]))
         else if IsUpper (v ! pos) \<or> IsLower (v ! pos) then
           (let endPos = getWordEndPos v pos
            in splitLoop v (endPos + 1) (wordIndexes @ [endPos + 1]))
         else if IsSpace (v ! pos) then
           (let endPos = getSpaceEndPos v pos
            in splitLoop v (endPos + 1) (wordIndexes @ [endPos + 1]))
         else splitLoop v (pos + 1) wordIndexes)
      else wordIndexes)"
  by pat_completeness auto
termination
proof (relation "measure (\<lambda>(v, pos, wordIndexes). length v - pos)")
  show "wf (measure (\<lambda>(v, pos, wordIndexes). length v - pos))" by simp
next
  fix v pos and wordIndexes :: "nat list" and endPos
  assume "pos < length v" "endPos = getNumberEndPos v pos"
  then show "((v, endPos + 1, wordIndexes @ [endPos + 1]), (v, pos, wordIndexes))
      \<in> measure (\<lambda>(v, pos, wordIndexes). length v - pos)"
    using getNumberEndPos_bounds [of pos v] by auto
next
  fix v pos and wordIndexes :: "nat list" and endPos
  assume "pos < length v" "endPos = getWordEndPos v pos"
  then show "((v, endPos + 1, wordIndexes @ [endPos + 1]), (v, pos, wordIndexes))
      \<in> measure (\<lambda>(v, pos, wordIndexes). length v - pos)"
    using getWordEndPos_bounds [of pos v] by auto
next
  fix v pos and wordIndexes :: "nat list" and endPos
  assume "pos < length v" "endPos = getSpaceEndPos v pos"
  then show "((v, endPos + 1, wordIndexes @ [endPos + 1]), (v, pos, wordIndexes))
      \<in> measure (\<lambda>(v, pos, wordIndexes). length v - pos)"
    using getSpaceEndPos_bounds [of pos v] by auto
next
  fix v pos and wordIndexes :: "nat list"
  assume "pos < length v"
  then show "((v, pos + 1, wordIndexes), (v, pos, wordIndexes))
      \<in> measure (\<lambda>(v, pos, wordIndexes). length v - pos)"
    by simp
qed

declare splitLoop.simps [simp del]

text \<open>
  \<open>extractWordsByIndexes\<close>: the test \<open>endIndex >= 0\<close> holds of every natural number;
  the slice expression \<open>v[startIndex:endIndex]\<close> may panic.
\<close>

function extractLoop :: "string \<Rightarrow> nat list \<Rightarrow> nat \<Rightarrow> string list \<Rightarrow> string list option" where
  "extractLoop v endIndexes i words =
     (if i < length endIndexes then
        (let endIndex = endIndexes ! i in
         if endIndex \<le> length v then
           (let startIndex = (if i = 0 then 0 else endIndexes ! (i - 1)) in
            case slice v startIndex endIndex of
              None \<Rightarrow> None
            | Some word \<Rightarrow> extractLoop v endIndexes (i + 1) (words @ [word]))
         else extractLoop v endIndexes (i + 1) words)
      else Some words)"
  by pat_completeness auto
termination
  by (relation "measure (\<lambda>(v, endIndexes, i, words). length endIndexes - i)") auto

declare extractLoop.simps [simp del]

definition extractWordsByIndexes :: "string \<Rightarrow> nat list \<Rightarrow> string list option" where
  "extractWordsByIndexes v endIndexes = extractLoop v endIndexes 0 []"

definition isValid :: "string \<Rightarrow> bool" where
  "isValid v = (ValidString v \<and> length v > 0)"

definition Split :: "string \<Rightarrow> string list option" where
  "Split v = (if \<not> isValid v then Some [v] else extractWordsByIndexes v (splitLoop v 0 []))"

section \<open>Package gosentence\<close>

text \<open>
  \<open>Transform\<close> ranges over \<open>v\<close> with the index \<open>idx\<close>, appending to \<open>retVal\<close>;
  \<open>slices.Contains(noTransform, word)\<close> is membership.
\<close>

fun transformLoop :: "(string \<Rightarrow> string) \<Rightarrow> string list \<Rightarrow> nat \<Rightarrow> string list \<Rightarrow> string list
    \<Rightarrow> string list" where
  "transformLoop U noTransform idx [] retVal = retVal"
| "transformLoop U noTransform idx (word # v) retVal =
     transformLoop U noTransform (idx + 1) v
       (if idx = 0 then retVal @ [word]
        else if word \<in> set noTransform then retVal @ [word]
        else retVal @ [ToLower U word])"

definition Transform :: "(string \<Rightarrow> string) \<Rightarrow> string list \<Rightarrow> string list \<Rightarrow> string" where
  "Transform U v noTransform = Join (transformLoop U noTransform 0 v []) '' ''"

section \<open>Packages paths and maps\<close>

text \<open>
  Modelled from the spec: \<open>paths.Name\<close>, whose source is not part of the excerpt (only
  its test is). It is the text after the last path separator, \<open>/\<close> or \<open>\\<close>; a path
  without a separator is returned unchanged.
\<close>

definition paths_Name :: "string \<Rightarrow> string" where
  "paths_Name fullPath = rev (takeWhile (\<lambda>c. c \<noteq> CHR ''/'' \<and> c \<noteq> CHR 0x5C) (rev fullPath))"

text \<open>
  A Go map from strings is a list of key-value pairs with distinct keys; \<open>m[k]\<close> of a
  missing key is the zero value, \<open>nil\<close> for a slice.
\<close>

type_synonym 'v gomap = "(string \<times> 'v) list"

text \<open>
  Modelled from the spec: \<open>maps.SortedKeys\<close>, whose source is not part of the excerpt
  (only its test is). It is the keys of the map in ascending order, which for strings is
  the byte-wise lexicographic order of Go's \<open><\<close>.
\<close>

definition SortedKeys :: "'v gomap \<Rightarrow> string list" where
  "SortedKeys m = sort (map fst m)"

section \<open>Package xunit\<close>

subsection \<open>The decoded document\<close>

text \<open>
  Modelled from the spec: the types \<open>result\<close>, \<open>assembly\<close>, \<open>collection\<close>, \<open>test\<close>,
  \<open>traitSet\<close> and \<open>trait\<close> that \<open>unmarshal\<close> fills are declared in a file that is not
  part of the excerpt; their fields are the ones the functions below read and the
  attributes the spec lists. An absent attribute is the empty string or 0. The program
  only ranges over the slices of these types, so they are lists. A \<open>float32\<close> is only
  copied: it is its 32 bits.
\<close>

type_synonym float32 = "32 word"

record trait =
  trait_Name :: string
  trait_Value :: string

record traitSet =
  Traits :: "trait list"

record test =
  test_Name :: string
  test_Type :: string
  test_Result :: string
  test_Time :: float32
  TraitSet :: traitSet

record collection =
  Tests :: "test list"

record assembly =
  FullName :: string
  ErrorCount :: int
  PassedCount :: int
  FailedCount :: int
  NotRunCount :: int
  Total :: int
  RunDate :: string
  RunTime :: string
  Time :: float32
  TimeRTF :: string
  Collections :: "collection list"

record result =
  Computer :: string
  User :: string
  StartRTF :: string
  FinishRTF :: string
  Timestamp :: string
  Assemblies :: "assembly list"

subsection \<open>The report model\<close>

record TestCase =
  tc_Name :: string
  tc_Result :: string
  tc_Time :: float32
  tc_groups :: "string slice"

text \<open>
  A \<open>*TestGroup\<close> is created by \<open>&TestGroup{...}\<close> and appended to exactly one
  \<open>Groups\<close> slice (or to the result), so the groups form a tree and no group is reached
  along two paths: a group is the value it points to.
\<close>

datatype TestGroup =
  TestGroup (tg_Name: string) (tg_Tests: "TestCase slice") (tg_Groups: "TestGroup slice")

record Assembly =
  asm_Name :: string
  asm_ErrorCount :: int
  asm_PassedCount :: int
  asm_FailedCount :: int
  asm_NotRunCount :: int
  asm_TotalCount :: int
  asm_RunDate :: string
  asm_RunTime :: string
  asm_Time :: float32
  asm_TimeRTF :: string
  asm_TestGroups :: "TestGroup slice"

record TestRun =
  run_Computer :: string
  run_User :: string
  run_StartTimeRTF :: string
  run_EndTimeRTF :: string
  run_Timestamp :: string
  run_Assemblies :: "Assembly slice"

subsection \<open>Names of tests and traits\<close>

definition hasDisplayName :: "test \<Rightarrow> bool" where
  "hasDisplayName t = (\<not> Contains (test_Name t) (test_Type t))"

definition isNested :: "test \<Rightarrow> bool" where
  "isNested t = (\<not> hasDisplayName t \<and> Contains (test_Name t) ''+'')"

definition trait_friendlyName :: "trait \<Rightarrow> string" where
  "trait_friendlyName t = trait_Name t @ '' - '' @ trait_Value t"

text \<open>
  \<open>t.Name[strings.LastIndex(t.Name, ".")+1:]\<close> and
  \<open>fnName[:strings.LastIndex(fnName, "(")]\<close> are slice expressions.
\<close>

definition test_friendlyName :: "(string \<Rightarrow> string) \<Rightarrow> test \<Rightarrow> string option" where
  "test_friendlyName U t =
     (if hasDisplayName t then Some (test_Name t)
      else
        (case slice (test_Name t) (nat (LastIndex (test_Name t) ''.'' + 1)) (length (test_Name t)) of
           None \<Rightarrow> None
         | Some fnName \<Rightarrow>
             (case (if ContainsRune fnName CHR ''(''
                    then slice fnName 0 (nat (LastIndex fnName ''(''))
                    else Some fnName) of
                None \<Rightarrow> None
              | Some fnName' \<Rightarrow>
                  (case Split fnName' of
                     None \<Rightarrow> None
                   | Some fnNameWords \<Rightarrow> Some (Transform U fnNameWords [])))))"

text \<open>The loop of \<open>groups\<close> over \<open>groupNameParts\<close>.\<close>

fun groupsLoop :: "(string \<Rightarrow> string) \<Rightarrow> string list \<Rightarrow> string list \<Rightarrow> string list option" where
  "groupsLoop U [] groupName = Some groupName"
| "groupsLoop U (p # ps) groupName =
     (case Split p of
        None \<Rightarrow> None
      | Some ccSplit \<Rightarrow> groupsLoop U ps (groupName @ [Transform U ccSplit []]))"

definition groups :: "(string \<Rightarrow> string) \<Rightarrow> test \<Rightarrow> string slice option" where
  "groups U t =
     (if \<not> isNested t then Some (Slice [])
      else
        (let groupName = strings_Split (test_Name t) CHR ''+'' in
         case index groupName 0 of
           None \<Rightarrow> None
         | Some first \<Rightarrow>
             (case slice first (nat (LastIndex first ''.'' + 1)) (length first) of
                None \<Rightarrow> None
              | Some firstPart \<Rightarrow>
                  (case slice groupName 1 (length groupName - 1) of
                     None \<Rightarrow> None
                   | Some interior \<Rightarrow>
                       (case index groupName (length groupName - 1) of
                          None \<Rightarrow> None
                        | Some lastSegment \<Rightarrow>
                            (case index (strings_Split lastSegment CHR ''.'') 0 of
                               None \<Rightarrow> None
                             | Some lastPart \<Rightarrow>
                                 map_option Slice
                                   (groupsLoop U ([firstPart] @ interior @ [lastPart]) [])))))))"

subsection \<open>Grouping\<close>

definition hasTests :: "assembly \<Rightarrow> bool" where
  "hasTests a = list_ex (\<lambda>collection. length (Tests collection) > 0) (Collections a)"

definition lookup :: "'v slice gomap \<Rightarrow> string \<Rightarrow> 'v slice" where
  "lookup m k = (case map_of m k of None \<Rightarrow> NilSlice | Some v \<Rightarrow> v)"

text \<open>\<open>m[k] = append(m[k], x)\<close>.\<close>

definition appendTo :: "'v slice gomap \<Rightarrow> string \<Rightarrow> 'v \<Rightarrow> 'v slice gomap" where
  "appendTo m k x = AList.update k (append1 (lookup m k) x) m"

text \<open>
  \<open>uniqueTraits\<close> fills \<open>assembly.testMap\<close>, which \<open>groupTests\<close> reads afterwards: the
  map is returned with the keys. The three nested loops, innermost first.
\<close>

fun traitLoop :: "trait list \<Rightarrow> TestCase \<Rightarrow> TestCase slice gomap \<Rightarrow> TestCase slice gomap" where
  "traitLoop [] tCase testMap = testMap"
| "traitLoop (tTrait # ts) tCase testMap =
     traitLoop ts tCase (appendTo testMap (trait_friendlyName tTrait) tCase)"

definition newTestCase :: "(string \<Rightarrow> string) \<Rightarrow> test \<Rightarrow> TestCase option" where
  "newTestCase U t =
     (case test_friendlyName U t of
        None \<Rightarrow> None
      | Some name \<Rightarrow>
          (case groups U t of
             None \<Rightarrow> None
           | Some gs \<Rightarrow>
               Some \<lparr>tc_Name = name, tc_Result = test_Result t, tc_Time = test_Time t,
                      tc_groups = gs\<rparr>))"

fun testLoop :: "(string \<Rightarrow> string) \<Rightarrow> test list \<Rightarrow> TestCase slice gomap
    \<Rightarrow> TestCase slice gomap option" where
  "testLoop U [] testMap = Some testMap"
| "testLoop U (t # ts) testMap =
     (case newTestCase U t of
        None \<Rightarrow> None
      | Some tCase \<Rightarrow>
          testLoop U ts
            (traitLoop (Traits (TraitSet t)) tCase
               (if length (Traits (TraitSet t)) = 0 then appendTo testMap [] tCase
                else testMap)))"

fun collectionLoop :: "(string \<Rightarrow> string) \<Rightarrow> collection list \<Rightarrow> TestCase slice gomap
    \<Rightarrow> TestCase slice gomap option" where
  "collectionLoop U [] testMap = Some testMap"
| "collectionLoop U (c # cs) testMap =
     (case testLoop U (Tests c) testMap of
        None \<Rightarrow> None
      | Some testMap' \<Rightarrow> collectionLoop U cs testMap')"

definition uniqueTraits :: "(string \<Rightarrow> string) \<Rightarrow> assembly
    \<Rightarrow> (string list \<times> TestCase slice gomap) option" where
  "uniqueTraits U a =
     (case collectionLoop U (Collections a) [] of
        None \<Rightarrow> None
      | Some testMap \<Rightarrow> Some (SortedKeys testMap, testMap))"

text \<open>
  The test case that \<open>groupTests\<close> appends: \<open>TestCase{Name: tc.Name, Result: tc.Result,
  Time: tc.Time}\<close>, whose \<open>groups\<close> is \<open>nil\<close>.
\<close>

definition outCase :: "TestCase \<Rightarrow> TestCase" where
  "outCase tc = \<lparr>tc_Name = tc_Name tc, tc_Result = tc_Result tc, tc_Time = tc_Time tc,
     tc_groups = NilSlice\<rparr>"

text \<open>
  The search \<open>for _, group := range cGroup.Groups\<close> for the first group named
  \<open>tc.groups[idx]\<close>: its position, or \<open>None\<close> when \<open>sGroup\<close> stays \<open>nil\<close>.
\<close>

fun findGroup :: "string \<Rightarrow> TestGroup list \<Rightarrow> nat option" where
  "findGroup nn [] = None"
| "findGroup nn (g # gs) =
     (if tg_Name g = nn then Some 0 else map_option Suc (findGroup nn gs))"

text \<open>
  The loop \<open>for idx, nn := range tc.groups\<close>, started at \<open>cGroup\<close> with the names not
  yet visited: it finds or creates \<open>sGroup\<close> among the groups of \<open>cGroup\<close>, appends the
  test case to it at the last name, and goes on inside \<open>sGroup\<close>. The code changes
  \<open>sGroup\<close> through its pointer; here the changed \<open>sGroup\<close> is put back at its place in
  \<open>cGroup.Groups\<close>, and the value is \<open>cGroup\<close> after the loop.
\<close>

fun nestLoop :: "TestCase \<Rightarrow> string list \<Rightarrow> TestGroup \<Rightarrow> TestGroup" where
  "nestLoop tc [] cGroup = cGroup"
| "nestLoop tc (nn # rest) cGroup =
     (case findGroup nn (elems (tg_Groups cGroup)) of
        None \<Rightarrow>
          (let sGroup = TestGroup nn NilSlice NilSlice;
               sGroup' = (if rest = []
                          then TestGroup (tg_Name sGroup) (append1 (tg_Tests sGroup) (outCase tc))
                                 (tg_Groups sGroup)
                          else sGroup)
           in TestGroup (tg_Name cGroup) (tg_Tests cGroup)
                (append1 (tg_Groups cGroup) (nestLoop tc rest sGroup')))
      | Some i \<Rightarrow>
          (let sGroup = elems (tg_Groups cGroup) ! i;
               sGroup' = (if rest = []
                          then TestGroup (tg_Name sGroup) (append1 (tg_Tests sGroup) (outCase tc))
                                 (tg_Groups sGroup)
                          else sGroup)
           in TestGroup (tg_Name cGroup) (tg_Tests cGroup)
                (Slice ((elems (tg_Groups cGroup)) [i := nestLoop tc rest sGroup']))))"

text \<open>
  The loop \<open>for _, tc := range assembly.testMap[trait]\<close>; after a nested test case
  \<open>cGroup = resultSet[idx]\<close> returns to the group of the trait.
\<close>

fun caseLoop :: "TestCase list \<Rightarrow> TestGroup \<Rightarrow> TestGroup" where
  "caseLoop [] cGroup = cGroup"
| "caseLoop (tc # tcs) cGroup =
     caseLoop tcs
       (if length (elems (tc_groups tc)) = 0
        then TestGroup (tg_Name cGroup) (append1 (tg_Tests cGroup) (outCase tc)) (tg_Groups cGroup)
        else nestLoop tc (elems (tc_groups tc)) cGroup)"

text \<open>The loop \<open>for idx, trait := range uniqueTraits\<close>, appending to \<open>resultSet\<close>.\<close>

fun traitGroupLoop :: "TestCase slice gomap \<Rightarrow> string list \<Rightarrow> TestGroup list \<Rightarrow> TestGroup list" where
  "traitGroupLoop testMap [] resultSet = resultSet"
| "traitGroupLoop testMap (trait # ts) resultSet =
     traitGroupLoop testMap ts
       (resultSet @ [caseLoop (elems (lookup testMap trait)) (TestGroup trait (Slice []) NilSlice)])"

definition groupTests :: "(string \<Rightarrow> string) \<Rightarrow> assembly \<Rightarrow> TestGroup slice option" where
  "groupTests U a =
     (if \<not> hasTests a then Some (Slice [])
      else
        (case uniqueTraits U a of
           None \<Rightarrow> None
         | Some (traits, testMap) \<Rightarrow> Some (Slice (traitGroupLoop testMap traits []))))"

subsection \<open>Loading\<close>

fun assemblyLoop :: "(string \<Rightarrow> string) \<Rightarrow> assembly list \<Rightarrow> Assembly list \<Rightarrow> Assembly list option" where
  "assemblyLoop U [] acc = Some acc"
| "assemblyLoop U (a # as) acc =
     (case groupTests U a of
        None \<Rightarrow> None
      | Some testGroups \<Rightarrow>
          assemblyLoop U as
            (acc @ [\<lparr>asm_Name = paths_Name (FullName a),
                      asm_ErrorCount = ErrorCount a,
                      asm_PassedCount = PassedCount a,
                      asm_FailedCount = FailedCount a,
                      asm_NotRunCount = NotRunCount a,
                      asm_TotalCount = Total a,
                      asm_RunDate = RunDate a,
                      asm_RunTime = RunTime a,
                      asm_Time = Time a,
                      asm_TimeRTF = TimeRTF a,
                      asm_TestGroups = testGroups\<rparr>]))"

definition readResult :: "(string \<Rightarrow> string) \<Rightarrow> result \<Rightarrow> TestRun option" where
  "readResult U r =
     (case assemblyLoop U (Assemblies r) [] of
        None \<Rightarrow> None
      | Some assemblies \<Rightarrow>
          Some \<lparr>run_Computer = Computer r,
                run_User = User r,
                run_StartTimeRTF = StartRTF r,
                run_EndTimeRTF = FinishRTF r,
                run_Timestamp = Timestamp r,
                run_Assemblies = Slice assemblies\<rparr>)"

text \<open>
  The error of the package, and what Go's XML decoder makes of the bytes of a stream:
  they are not well-formed XML, or they lack the document marker, or they are the tree
  of a document. \<open>zeroResult\<close> is the tree without attributes and assemblies.
\<close>

datatype error = DecodeError

datatype xml = NotWellFormed | NoMarker | Tree result

definition zeroResult :: result where
  "zeroResult = \<lparr>Computer = [], User = [], StartRTF = [], FinishRTF = [], Timestamp = [],
     Assemblies = []\<rparr>"

text \<open>
  Modelled from the spec: \<open>unmarshal\<close>, whose source is not part of the excerpt. The spec
  (4.1, 7) has it fail with a \<open>DecodeError\<close> when the stream is empty, is not
  well-formed XML, or lacks the expected document marker, and otherwise give the
  decoded tree. The XML decoder is the parameter \<open>xmlDecode\<close>.
\<close>

definition unmarshal :: "(string \<Rightarrow> xml) \<Rightarrow> string \<Rightarrow> result \<times> error option" where
  "unmarshal xmlDecode rdr =
     (if rdr = [] then (zeroResult, Some DecodeError)
      else
        (case xmlDecode rdr of
           NotWellFormed \<Rightarrow> (zeroResult, Some DecodeError)
         | NoMarker \<Rightarrow> (zeroResult, Some DecodeError)
         | Tree r \<Rightarrow> (r, None)))"

text \<open>\<open>TestRun{}\<close>, the zero value: empty strings and a \<open>nil\<close> slice.\<close>

definition zeroTestRun :: TestRun where
  "zeroTestRun = \<lparr>run_Computer = [], run_User = [], run_StartTimeRTF = [], run_EndTimeRTF = [],
     run_Timestamp = [], run_Assemblies = NilSlice\<rparr>"

definition Load :: "(string \<Rightarrow> string) \<Rightarrow> (string \<Rightarrow> xml) \<Rightarrow> string
    \<Rightarrow> (TestRun \<times> error option) option" where
  "Load U xmlDecode rdr =
     (case unmarshal xmlDecode rdr of
        (result, Some err) \<Rightarrow> Some (zeroTestRun, Some err)
      | (result, None) \<Rightarrow>
          (case readResult U result of
             None \<Rightarrow> None
           | Some testRun \<Rightarrow> Some (testRun, None)))"

section \<open>Notions used in the statements and proofs\<close>

text \<open>
  A byte is classified when one of the four tests of the loop of \<open>Split\<close> holds of it;
  any other byte is stepped over.
\<close>

definition classified :: "char \<Rightarrow> bool" where
  "classified c = (IsNumber c \<or> IsUpper c \<or> IsLower c \<or> IsSpace c)"

text \<open>
  The start and the end of the words that \<open>extractWordsByIndexes\<close> cuts from position
  \<open>i\<close> of the end indexes on, and the end of the last word.
\<close>

definition startAt :: "nat list \<Rightarrow> nat \<Rightarrow> nat" where
  "startAt endIndexes i = (if i = 0 then 0 else endIndexes ! (i - 1))"

definition endAt :: "nat list \<Rightarrow> nat \<Rightarrow> nat" where
  "endAt endIndexes i = (if i < length endIndexes then last endIndexes else startAt endIndexes i)"

definition lastEnd :: "nat list \<Rightarrow> nat" where
  "lastEnd wordIndexes = (if wordIndexes = [] then 0 else last wordIndexes)"

text \<open>
  The invariant of the loop of \<open>Split\<close> at position \<open>pos\<close>: the end indexes ascend and
  lie before \<open>pos\<close>, the last word ends in a classified byte, and no byte between it
  and \<open>pos\<close> is classified.
\<close>

definition splitInv :: "string \<Rightarrow> nat \<Rightarrow> nat list \<Rightarrow> bool" where
  "splitInv v pos wordIndexes =
     (pos \<le> length v \<and> sorted wordIndexes \<and> (\<forall>e \<in> set wordIndexes. e \<le> pos)
      \<and> (\<forall>k. lastEnd wordIndexes \<le> k \<and> k < pos \<longrightarrow> \<not> classified (v ! k))
      \<and> (wordIndexes \<noteq> [] \<longrightarrow> 0 < last wordIndexes \<and> classified (v ! (last wordIndexes - 1))))"

text \<open>
  The parts of a name in the words of the spec: the text after the final occurrence of a
  byte, the text before its final occurrence (the whole text when it does not occur)
  and the text before its first occurrence.
\<close>

definition afterFinal :: "char \<Rightarrow> string \<Rightarrow> string" where
  "afterFinal c s = rev (takeWhile (\<lambda>x. x \<noteq> c) (rev s))"

definition beforeFinal :: "char \<Rightarrow> string \<Rightarrow> string" where
  "beforeFinal c s = (if c \<in> set s then rev (tl (dropWhile (\<lambda>x. x \<noteq> c) (rev s))) else s)"

definition beforeFirst :: "char \<Rightarrow> string \<Rightarrow> string" where
  "beforeFirst c s = takeWhile (\<lambda>x. x \<noteq> c) s"

text \<open>
  The tokens of the Identifier Splitter (none if it panicked), and a name humanized by
  the Identifier Splitter and the Phrase Composer with no exception word.
\<close>

definition tokens :: "string \<Rightarrow> string list" where
  "tokens v = (case Split v of None \<Rightarrow> [] | Some ws \<Rightarrow> ws)"

definition humanize :: "(string \<Rightarrow> string) \<Rightarrow> string \<Rightarrow> string" where
  "humanize U p = Transform U (tokens p) []"

text \<open>
  The method name of spec 4.4: the text after the last \<open>.\<close>, without a trailing
  parameter list opened by \<open>(\<close>; and the friendly name of a test.
\<close>

definition methodName :: "string \<Rightarrow> string" where
  "methodName name =
     (let m = afterFinal CHR ''.'' name
      in if CHR ''('' \<in> set m then beforeFinal CHR ''('' m else m)"

definition friendly :: "(string \<Rightarrow> string) \<Rightarrow> test \<Rightarrow> string" where
  "friendly U t =
     (if hasDisplayName t then test_Name t else humanize U (methodName (test_Name t)))"

text \<open>
  The structural path of a nested test in the words of C2: the name is split on \<open>+\<close>;
  the first component is the first segment after its final \<open>.\<close>, the interior
  segments follow literally, and the terminal component is what \<open>terminal\<close> keeps of
  the last segment: \<open>beforeFinal\<close> in the claim as it is stated, \<open>beforeFirst\<close> in
  the claim as amended. The components are not yet humanized.
\<close>

definition groupPath :: "(char \<Rightarrow> string \<Rightarrow> string) \<Rightarrow> test \<Rightarrow> string list" where
  "groupPath terminal t =
     (let segments = strings_Split (test_Name t) CHR ''+''
      in [afterFinal CHR ''.'' (hd segments)] @ butlast (tl segments)
           @ [terminal CHR ''.'' (last segments)])"

text \<open>The test case that stands for a test in the buckets.\<close>

definition caseOf :: "(string \<Rightarrow> string) \<Rightarrow> test \<Rightarrow> TestCase" where
  "caseOf U t = \<lparr>tc_Name = friendly U t, tc_Result = test_Result t, tc_Time = test_Time t,
     tc_groups = Slice (if isNested t then map (humanize U) (groupPath beforeFirst t) else [])\<rparr>"

text \<open>
  Grouping by trait in the words of the spec: the tests of an assembly across its
  collections; the rendered keys of a test, one for each trait it carries, the empty
  string for a test without traits; what a test adds to the bucket of a key, one entry
  for each of its traits rendered as that key; the bucket of a key; and all test cases
  in a group and the groups below it.
\<close>

definition testsOf :: "assembly \<Rightarrow> test list" where
  "testsOf a = concat (map Tests (Collections a))"

definition keysOf :: "test \<Rightarrow> string list" where
  "keysOf t = (if Traits (TraitSet t) = [] then [[]] else map trait_friendlyName (Traits (TraitSet t)))"

definition contribution :: "(string \<Rightarrow> string) \<Rightarrow> test \<Rightarrow> string \<Rightarrow> TestCase list" where
  "contribution U t k = map (\<lambda>_. caseOf U t) (filter (\<lambda>k'. k' = k) (keysOf t))"

definition bucket :: "(string \<Rightarrow> string) \<Rightarrow> assembly \<Rightarrow> string \<Rightarrow> TestCase list" where
  "bucket U a k = concat (map (\<lambda>t. contribution U t k) (testsOf a))"

primrec allCases :: "TestGroup \<Rightarrow> TestCase list" where
  "allCases (TestGroup n ts gs) = elems ts @ concat (elems (map_slice allCases gs))"

text \<open>
  A map holds the buckets \<open>B\<close> when its keys are distinct, the slice at each key has
  the elements of the bucket, and the keys are those of the non-empty buckets.
\<close>

definition holds :: "TestCase slice gomap \<Rightarrow> (string \<Rightarrow> TestCase list) \<Rightarrow> bool" where
  "holds m B = (distinct (map fst m) \<and> (\<forall>k. elems (lookup m k) = B k)
     \<and> set (map fst m) = {k. B k \<noteq> []})"


section \<open>Properties of package camelcase\<close>

lemma take_drop_glue:
  assumes "a \<le> b" "b \<le> c"
  shows "take (b - a) (drop a v) @ take (c - b) (drop b v) = take (c - a) (drop a v)"
proof -
  have "take (c - a) (drop a v) = take ((b - a) + (c - b)) (drop a v)"
    using assms by simp
  also have "\<dots> = take (b - a) (drop a v) @ take (c - b) (drop (b - a) (drop a v))"
    by (rule take_add)
  also have "drop (b - a) (drop a v) = drop b v"
    using assms by simp
  finally show ?thesis by simp
qed

lemma extractLoop_concat:
  assumes "sorted endIndexes" "\<forall>e \<in> set endIndexes. e \<le> length v"
  shows "\<exists>ws. extractLoop v endIndexes i words = Some (words @ ws)
           \<and> concat ws = take (endAt endIndexes i - startAt endIndexes i) (drop (startAt endIndexes i) v)"
  using assms
proof (induction v endIndexes i words rule: extractLoop.induct)
  case (1 v endIndexes i words)
  show ?case
  proof (cases "i < length endIndexes")
    case False
    then show ?thesis
      by (subst extractLoop.simps) (simp add: endAt_def)
  next
    case True
    let ?e = "endIndexes ! i" and ?s = "startAt endIndexes i"
    have e_le: "?e \<le> length v" using True 1(4) by simp
    have s_le: "?s \<le> ?e"
      using True 1(3) by (auto simp: startAt_def intro: sorted_nth_mono)
    have sl: "slice v ?s ?e = Some (take (?e - ?s) (drop ?s v))"
      using e_le s_le by (simp add: slice_def)
    have st: "startAt endIndexes (i + 1) = ?e" by (simp add: startAt_def)
    have e_end: "?e \<le> endAt endIndexes (i + 1)"
    proof (cases "i + 1 < length endIndexes")
      case True
      then have "endIndexes ! i \<le> endIndexes ! (length endIndexes - 1)"
        using 1(3) by (intro sorted_nth_mono) auto
      moreover have "endIndexes \<noteq> []" using True by auto
      ultimately show ?thesis using True by (simp add: endAt_def last_conv_nth)
    next
      case False
      then show ?thesis using st by (simp add: endAt_def)
    qed
    have end_eq: "endAt endIndexes (i + 1) = endAt endIndexes i"
    proof (cases "i + 1 < length endIndexes")
      case True
      then show ?thesis by (simp add: endAt_def)
    next
      case False
      with True have "i = length endIndexes - 1" "endIndexes \<noteq> []" by auto
      then have "last endIndexes = endIndexes ! i" by (simp add: last_conv_nth)
      with True False st show ?thesis by (simp add: endAt_def)
    qed
    obtain ws where ws: "extractLoop v endIndexes (i + 1) (words @ [take (?e - ?s) (drop ?s v)])
          = Some ((words @ [take (?e - ?s) (drop ?s v)]) @ ws)"
        "concat ws = take (endAt endIndexes (i + 1) - ?e) (drop ?e v)"
      using "1.IH"(1) [OF True refl e_le refl, of "take (?e - ?s) (drop ?s v)"] sl 1(3,4) st
      by (auto simp: startAt_def)
    have "extractLoop v endIndexes i words
        = extractLoop v endIndexes (i + 1) (words @ [take (?e - ?s) (drop ?s v)])"
      using True e_le sl by (subst extractLoop.simps) (simp add: startAt_def)
    moreover have "concat (take (?e - ?s) (drop ?s v) # ws)
        = take (endAt endIndexes i - ?s) (drop ?s v)"
      using ws(2) take_drop_glue [OF s_le e_end, of v] end_eq by simp
    ultimately show ?thesis using ws(1) by (intro exI [of _ "take (?e - ?s) (drop ?s v) # ws"]) simp
  qed
qed


lemma scan_run:
  assumes "Q (v ! pos)" "\<And>c. P c \<Longrightarrow> Q c" "pos \<le> k" "k < scanWhile P v (pos + 1)"
  shows "Q (v ! k)"
proof (cases "k = pos")
  case True
  with assms(1) show ?thesis by simp
next
  case False
  with assms(3) have "pos + 1 \<le> k" by simp
  from scanWhile_all [OF this assms(4)] assms(2) show ?thesis by blast
qed

lemma getNumberEndPos_class:
  assumes "IsNumber (v ! pos)"
  shows "IsNumber (v ! getNumberEndPos v pos)"
proof -
  have "pos + 1 \<le> scanWhile IsNumber v (pos + 1)" by (rule scanWhile_ge)
  then have b: "pos \<le> getNumberEndPos v pos"
      "getNumberEndPos v pos < scanWhile IsNumber v (pos + 1)"
    by (simp_all add: getNumberEndPos_def)
  show ?thesis
    by (rule scan_run [of IsNumber v pos IsNumber, OF assms _ b]) assumption
qed

lemma getSpaceEndPos_class:
  assumes "IsSpace (v ! pos)"
  shows "IsSpace (v ! getSpaceEndPos v pos)"
proof -
  have "pos + 1 \<le> scanWhile IsSpace v (pos + 1)" by (rule scanWhile_ge)
  then have b: "pos \<le> getSpaceEndPos v pos"
      "getSpaceEndPos v pos < scanWhile IsSpace v (pos + 1)"
    by (simp_all add: getSpaceEndPos_def)
  show ?thesis
    by (rule scan_run [of IsSpace v pos IsSpace, OF assms _ b]) assumption
qed

lemma getWordEndPos_class:
  assumes "pos < length v" "IsUpper (v ! pos) \<or> IsLower (v ! pos)"
  shows "IsUpper (v ! getWordEndPos v pos) \<or> IsLower (v ! getWordEndPos v pos)"
proof (cases "pos + 1 < length v \<and> IsUpper (v ! (pos + 1))")
  case True
  let ?s = "scanWhile IsUpper v (pos + 1)"
  have a: "pos + 2 \<le> ?s"
    using True scanWhile_step [of "pos + 1" v IsUpper] by simp
  have "getWordEndPos v pos = ?s - 1 \<or> getWordEndPos v pos = ?s - 2"
    using True by (simp add: getWordEndPos_def Let_def)
  with a have b: "pos \<le> getWordEndPos v pos" "getWordEndPos v pos < ?s"
    by linarith+
  show ?thesis
    by (rule scan_run [of "\<lambda>c. IsUpper c \<or> IsLower c" v pos IsUpper, OF assms(2) _ b]) simp
next
  case False
  let ?s = "scanWhile IsLower v (pos + 1)"
  have c: "getWordEndPos v pos = ?s - 1"
    using False by (auto simp: getWordEndPos_def)
  have "pos + 1 \<le> ?s" by (rule scanWhile_ge)
  with c have b: "pos \<le> getWordEndPos v pos" "getWordEndPos v pos < ?s"
    by linarith+
  show ?thesis
    by (rule scan_run [of "\<lambda>c. IsUpper c \<or> IsLower c" v pos IsLower, OF assms(2) _ b]) simp
qed

lemma splitInv_token:
  assumes "splitInv v pos wordIndexes" "pos \<le> e" "e < length v" "classified (v ! e)"
  shows "splitInv v (e + 1) (wordIndexes @ [e + 1])"
  using assms unfolding splitInv_def lastEnd_def
  by (auto simp: sorted_append)

lemma splitInv_skip:
  assumes "splitInv v pos wordIndexes" "pos < length v" "\<not> classified (v ! pos)"
  shows "splitInv v (pos + 1) wordIndexes"
  using assms unfolding splitInv_def
  by (auto simp: less_Suc_eq)

lemma splitLoop_done: "\<not> pos < length v \<Longrightarrow> splitLoop v pos wordIndexes = wordIndexes"
  by (subst splitLoop.simps) simp

lemma splitLoop_number:
  "pos < length v \<Longrightarrow> IsNumber (v ! pos) \<Longrightarrow>
   splitLoop v pos wordIndexes
     = splitLoop v (getNumberEndPos v pos + 1) (wordIndexes @ [getNumberEndPos v pos + 1])"
  by (subst splitLoop.simps) (simp add: Let_def)

lemma splitLoop_word:
  "pos < length v \<Longrightarrow> \<not> IsNumber (v ! pos) \<Longrightarrow> IsUpper (v ! pos) \<or> IsLower (v ! pos) \<Longrightarrow>
   splitLoop v pos wordIndexes
     = splitLoop v (getWordEndPos v pos + 1) (wordIndexes @ [getWordEndPos v pos + 1])"
  by (subst splitLoop.simps) (simp add: Let_def)

lemma splitLoop_space:
  "pos < length v \<Longrightarrow> \<not> IsNumber (v ! pos) \<Longrightarrow> \<not> (IsUpper (v ! pos) \<or> IsLower (v ! pos)) \<Longrightarrow>
   IsSpace (v ! pos) \<Longrightarrow>
   splitLoop v pos wordIndexes
     = splitLoop v (getSpaceEndPos v pos + 1) (wordIndexes @ [getSpaceEndPos v pos + 1])"
  by (subst splitLoop.simps) (simp add: Let_def)

lemma splitLoop_other:
  "pos < length v \<Longrightarrow> \<not> IsNumber (v ! pos) \<Longrightarrow> \<not> (IsUpper (v ! pos) \<or> IsLower (v ! pos)) \<Longrightarrow>
   \<not> IsSpace (v ! pos) \<Longrightarrow>
   splitLoop v pos wordIndexes = splitLoop v (pos + 1) wordIndexes"
  by (subst splitLoop.simps) simp

lemma splitLoop_inv:
  "splitInv v pos wordIndexes \<Longrightarrow> splitInv v (length v) (splitLoop v pos wordIndexes)"
proof (induction v pos wordIndexes rule: splitLoop.induct)
  case (1 v pos wordIndexes)
  show ?case
  proof (cases "pos < length v")
    case False
    with "1.prems" have "pos = length v" by (simp add: splitInv_def)
    with "1.prems" show ?thesis using splitLoop_done [OF False, of wordIndexes] by simp
  next
    case True
    consider (num) "IsNumber (v ! pos)"
      | (word) "\<not> IsNumber (v ! pos)" "IsUpper (v ! pos) \<or> IsLower (v ! pos)"
      | (space) "\<not> IsNumber (v ! pos)" "\<not> (IsUpper (v ! pos) \<or> IsLower (v ! pos))" "IsSpace (v ! pos)"
      | (other) "\<not> IsNumber (v ! pos)" "\<not> (IsUpper (v ! pos) \<or> IsLower (v ! pos))" "\<not> IsSpace (v ! pos)"
      by fastforce
    then show ?thesis
    proof cases
      case num
      let ?e = "getNumberEndPos v pos"
      have c: "classified (v ! ?e)"
        using getNumberEndPos_class [OF num] by (simp add: classified_def)
      have b: "pos \<le> ?e" "?e < length v"
        using getNumberEndPos_bounds [OF True] by simp_all
      have inv: "splitInv v (?e + 1) (wordIndexes @ [?e + 1])"
        by (rule splitInv_token [OF "1.prems" b c])
      have eq: "splitLoop v pos wordIndexes = splitLoop v (?e + 1) (wordIndexes @ [?e + 1])"
        by (rule splitLoop_number [OF True num])
      show ?thesis unfolding eq by (rule "1.IH"(1) [OF True num refl inv])
    next
      case word
      let ?e = "getWordEndPos v pos"
      have c: "classified (v ! ?e)"
        using getWordEndPos_class [OF True word(2)] by (auto simp: classified_def)
      have b: "pos \<le> ?e" "?e < length v"
        using getWordEndPos_bounds [OF True] by simp_all
      have inv: "splitInv v (?e + 1) (wordIndexes @ [?e + 1])"
        by (rule splitInv_token [OF "1.prems" b c])
      have eq: "splitLoop v pos wordIndexes = splitLoop v (?e + 1) (wordIndexes @ [?e + 1])"
        by (rule splitLoop_word [OF True word])
      show ?thesis unfolding eq by (rule "1.IH"(2) [OF True word(1) word(2) refl inv])
    next
      case space
      let ?e = "getSpaceEndPos v pos"
      have c: "classified (v ! ?e)"
        using getSpaceEndPos_class [OF space(3)] by (simp add: classified_def)
      have b: "pos \<le> ?e" "?e < length v"
        using getSpaceEndPos_bounds [OF True] by simp_all
      have inv: "splitInv v (?e + 1) (wordIndexes @ [?e + 1])"
        by (rule splitInv_token [OF "1.prems" b c])
      have eq: "splitLoop v pos wordIndexes = splitLoop v (?e + 1) (wordIndexes @ [?e + 1])"
        by (rule splitLoop_space [OF True space])
      show ?thesis unfolding eq by (rule "1.IH"(3) [OF True space(1) space(2) space(3) refl inv])
    next
      case other
      have c: "\<not> classified (v ! pos)"
        using other by (simp add: classified_def)
      have inv: "splitInv v (pos + 1) wordIndexes"
        by (rule splitInv_skip [OF "1.prems" True c])
      have eq: "splitLoop v pos wordIndexes = splitLoop v (pos + 1) (wordIndexes)"
        by (rule splitLoop_other [OF True other])
      show ?thesis unfolding eq by (rule "1.IH"(4) [OF True other(1) other(2) other(3) inv])
    qed
  qed
qed

lemma splitInv_init: "splitInv v 0 []"
  by (simp add: splitInv_def)

lemma splitLoop_facts:
  "splitInv v (length v) (splitLoop v 0 [])"
  by (rule splitLoop_inv [OF splitInv_init])

lemma Split_total_aux:
  "\<exists>ws. extractWordsByIndexes v (splitLoop v 0 []) = Some ws
      \<and> concat ws = take (lastEnd (splitLoop v 0 [])) v"
proof -
  let ?r = "splitLoop v 0 []"
  have inv: "splitInv v (length v) ?r" by (rule splitLoop_facts)
  then have s: "sorted ?r" and b: "\<forall>e \<in> set ?r. e \<le> length v"
    by (simp_all add: splitInv_def)
  from extractLoop_concat [OF s b, of 0 "[]"]
  obtain ws where ws: "extractLoop v ?r 0 [] = Some ws"
      "concat ws = take (endAt ?r 0 - startAt ?r 0) (drop (startAt ?r 0) v)"
    by auto
  have "endAt ?r 0 = lastEnd ?r"
    by (simp add: endAt_def lastEnd_def startAt_def)
  with ws show ?thesis
    by (simp add: extractWordsByIndexes_def startAt_def)
qed

lemma Split_Some: "Split v = Some (tokens v)"
  using Split_total_aux [of v] by (auto simp: tokens_def Split_def)


section \<open>The claims about package camelcase\<close>




text \<open>
  C5: at the failing input \<open>"HTML parser"\<close> the run of upper-case letters is followed by
  a space, not by a lower-case letter, and \<open>getWordEndPos\<close> still ends the word one byte
  early: the acronym is cut into \<open>"HTM"\<close> and \<open>"L"\<close>. The same happens before any
  byte that is neither a letter nor a digit, as in the identifier \<open>"HTML_Parser"\<close>.
\<close>

theorem Split_acronym_before_space:
  "Split ''HTML parser'' = Some [''HTM'', ''L'', '' '', ''parser'']
   \<and> Split ''HTML_Parser'' = Some [''HTM'', ''L'', ''_Parser'']"
  by code_simp

text \<open>The four examples of C5 hold.\<close>

lemma Split_examples:
  "Split ''MyID'' = Some [''My'', ''ID'']"
  "Split ''HTML'' = Some [''HTML'']"
  "Split ''GL11Version'' = Some [''GL'', ''11'', ''Version'']"
  "Split ''Two  spaces'' = Some [''Two'', ''  '', ''spaces'']"
  by code_simp+

text \<open>
  C7: \<open>Split\<close> returns for every input (it never panics); of the empty string it
  returns the one-element sequence holding the empty string, and of a string that is
  not valid UTF-8 the one-element sequence holding that string.
\<close>

theorem Split_never_fails:
  "(\<exists>ws. Split v = Some ws) \<and> Split [] = Some [[]]
     \<and> (\<not> ValidString v \<longrightarrow> Split v = Some [v])"
proof -
  have "\<exists>ws. Split v = Some ws"
    using Split_total_aux [of v] by (auto simp: Split_def)
  moreover have "Split [] = Some [[]]" by (simp add: Split_def isValid_def)
  moreover have "\<not> ValidString v \<longrightarrow> Split v = Some [v]"
    by (simp add: Split_def isValid_def)
  ultimately show ?thesis by blast
qed

text \<open>C7 at the input \<open>"BadUTF8\xe2\xe2\xa1"\<close> of the package's test.\<close>

theorem Split_never_fails_witness:
  "\<not> ValidString (''BadUTF8'' @ [CHR 0xE2, CHR 0xE2, CHR 0xA1])
     \<and> Split (''BadUTF8'' @ [CHR 0xE2, CHR 0xE2, CHR 0xA1])
         = Some [''BadUTF8'' @ [CHR 0xE2, CHR 0xE2, CHR 0xA1]]"
proof -
  have n: "\<not> ValidString (''BadUTF8'' @ [CHR 0xE2, CHR 0xE2, CHR 0xA1])" by code_simp
  with Split_never_fails [of "''BadUTF8'' @ [CHR 0xE2, CHR 0xE2, CHR 0xA1]"] show ?thesis
    by blast
qed

section \<open>The claim about package gosentence\<close>

lemma transformLoop_eq:
  "transformLoop U noTransform idx v retVal =
     retVal @ (if idx = 0
               then (case v of [] \<Rightarrow> []
                     | w # ws \<Rightarrow> w # map (\<lambda>word. if word \<in> set noTransform then word else ToLower U word) ws)
               else map (\<lambda>word. if word \<in> set noTransform then word else ToLower U word) v)"
proof (induction v arbitrary: idx retVal)
  case Nil
  then show ?case by simp
next
  case (Cons word v)
  show ?case
    by (cases "idx = 0") (simp_all add: Cons.IH)
qed

text \<open>
  C9: \<open>Transform\<close> joins with single spaces the first word, kept as it is, and every
  later word, kept as it is when it is among \<open>noTransform\<close> and lower-cased otherwise;
  of no words it makes the empty phrase; and the two examples hold.
\<close>

theorem Transform_phrase:
  "Transform U v noTransform =
     Join (case v of [] \<Rightarrow> []
           | w # ws \<Rightarrow> w # map (\<lambda>word. if word \<in> set noTransform then word else ToLower U word) ws) '' ''
   \<and> Transform U [] noTransform = []
   \<and> Transform U [''A'', ''Collection'', ''Of'', ''Words''] [] = ''A collection of words''
   \<and> Transform U [''An'', ''HTTP'', ''&'', ''SqlQuery''] [''HTTP'', ''SqlQuery'']
       = ''An HTTP & SqlQuery''"
proof -
  have a: "Transform U v noTransform =
     Join (case v of [] \<Rightarrow> []
           | w # ws \<Rightarrow> w # map (\<lambda>word. if word \<in> set noTransform then word else ToLower U word) ws) '' ''"
    for v noTransform
    by (simp add: Transform_def transformLoop_eq)
  have l: "ToLower U ''Collection'' = ''collection''" "ToLower U ''Of'' = ''of''"
    "ToLower U ''Words'' = ''words''" "ToLower U ''&'' = ''&''"
    by code_simp+
  show ?thesis
    by (simp add: a l)
qed

text \<open>C9 at the words \<open>["Hello", "World", "ID"]\<close> with \<open>"ID"\<close> not to be transformed.\<close>

theorem Transform_phrase_witness:
  "Transform (\<lambda>s. s) [''Hello'', ''World'', ''ID''] [''ID''] = ''Hello world ID''"
proof -
  have l: "ToLower (\<lambda>s. s) ''World'' = ''world''"
    by code_simp
  show ?thesis using Transform_phrase [of "\<lambda>s. s" "[''Hello'', ''World'', ''ID'']" "[''ID'']"]
    by (simp add: l)
qed

section \<open>Properties of package xunit\<close>

subsection \<open>The string functions\<close>

lemma indexFrom_empty: "indexFrom s [] i = int i"
  by (cases s) simp_all

lemma Contains_empty: "Contains s []"
  by (simp add: Contains_def Index_def indexFrom_empty)

lemma indexFrom_single: "(0 \<le> indexFrom s [c] i) = (c \<in> set s)"
  by (induction s arbitrary: i) auto

lemma Contains_single: "Contains s [c] = (c \<in> set s)"
  by (simp add: Contains_def Index_def indexFrom_single)

lemma take1_drop: "(take (Suc 0) (drop n s) = [c]) = (n < length s \<and> s ! n = c)"
proof (cases "n < length s")
  case True
  then have "drop n s = s ! n # drop (Suc n) s" by (simp add: Cons_nth_drop_Suc)
  with True show ?thesis by simp
next
  case False
  then show ?thesis by simp
qed

lemma lastIndexFrom_single:
  assumes "i < length s"
  shows "(lastIndexFrom s [c] i = - 1 \<and> (\<forall>k \<le> i. s ! k \<noteq> c))
     \<or> (\<exists>j \<le> i. lastIndexFrom s [c] i = int j \<and> s ! j = c \<and> (\<forall>k. j < k \<and> k \<le> i \<longrightarrow> s ! k \<noteq> c))"
  using assms
proof (induction i)
  case 0
  then have "(take (Suc 0) s = [c]) = (s ! 0 = c)"
    using take1_drop [of 0 s c] by simp
  then show ?case by auto
next
  case (Suc i)
  have t: "(take (Suc 0) (drop (Suc i) s) = [c]) = (s ! Suc i = c)"
    using Suc.prems take1_drop [of "Suc i" s c] by simp
  show ?case
  proof (cases "s ! Suc i = c")
    case True
    with t show ?thesis by auto
  next
    case False
    from Suc have IH: "(lastIndexFrom s [c] i = - 1 \<and> (\<forall>k \<le> i. s ! k \<noteq> c))
     \<or> (\<exists>j \<le> i. lastIndexFrom s [c] i = int j \<and> s ! j = c \<and> (\<forall>k. j < k \<and> k \<le> i \<longrightarrow> s ! k \<noteq> c))"
      by simp
    have eq: "lastIndexFrom s [c] (Suc i) = lastIndexFrom s [c] i"
      using False t by simp
    from IH show ?thesis
    proof
      assume "lastIndexFrom s [c] i = - 1 \<and> (\<forall>k \<le> i. s ! k \<noteq> c)"
      with False eq show ?thesis by (auto simp: le_Suc_eq)
    next
      assume "\<exists>j \<le> i. lastIndexFrom s [c] i = int j \<and> s ! j = c \<and> (\<forall>k. j < k \<and> k \<le> i \<longrightarrow> s ! k \<noteq> c)"
      then obtain j where "j \<le> i" "lastIndexFrom s [c] i = int j" "s ! j = c"
          "\<forall>k. j < k \<and> k \<le> i \<longrightarrow> s ! k \<noteq> c" by blast
      with False eq have "j \<le> Suc i \<and> lastIndexFrom s [c] (Suc i) = int j \<and> s ! j = c
          \<and> (\<forall>k. j < k \<and> k \<le> Suc i \<longrightarrow> s ! k \<noteq> c)"
        by (auto simp: le_Suc_eq)
      then show ?thesis by blast
    qed
  qed
qed

lemma LastIndex_single:
  "(LastIndex s [c] = - 1 \<and> c \<notin> set s)
   \<or> (\<exists>j < length s. LastIndex s [c] = int j \<and> s ! j = c \<and> c \<notin> set (drop (Suc j) s))"
proof (cases s)
  case Nil
  then show ?thesis by (simp add: LastIndex_def)
next
  case (Cons x xs)
  then have i: "length s - 1 < length s" by simp
  have L: "LastIndex s [c] = lastIndexFrom s [c] (length s - 1)"
    using Cons by (simp add: LastIndex_def)
  from lastIndexFrom_single [OF i, of c] show ?thesis
  proof
    assume a: "lastIndexFrom s [c] (length s - 1) = - 1 \<and> (\<forall>k \<le> length s - 1. s ! k \<noteq> c)"
    then have "c \<notin> set s"
      by (auto simp: in_set_conv_nth)
    with a L show ?thesis by simp
  next
    assume "\<exists>j \<le> length s - 1. lastIndexFrom s [c] (length s - 1) = int j \<and> s ! j = c
        \<and> (\<forall>k. j < k \<and> k \<le> length s - 1 \<longrightarrow> s ! k \<noteq> c)"
    then obtain j where j: "j \<le> length s - 1" "lastIndexFrom s [c] (length s - 1) = int j"
        "s ! j = c" "\<forall>k. j < k \<and> k \<le> length s - 1 \<longrightarrow> s ! k \<noteq> c" by blast
    have "c \<notin> set (drop (Suc j) s)"
    proof
      assume "c \<in> set (drop (Suc j) s)"
      then obtain n where "n < length s - Suc j" "drop (Suc j) s ! n = c"
        by (auto simp: in_set_conv_nth)
      then have "Suc j + n \<le> length s - 1" "s ! (Suc j + n) = c" by auto
      with j(4) show False by auto
    qed
    with j i L show ?thesis by (intro disjI2 exI [of _ j]) auto
  qed
qed

lemma slice_afterFinal:
  "slice s (nat (LastIndex s [c] + 1)) (length s) = Some (afterFinal c s)"
  using LastIndex_single [of s c]
proof
  assume a: "LastIndex s [c] = - 1 \<and> c \<notin> set s"
  then have "takeWhile (\<lambda>x. x \<noteq> c) (rev s) = rev s"
    by (intro takeWhile_eq_all_conv [THEN iffD2]) auto
  then have "afterFinal c s = s"
    unfolding afterFinal_def by (simp only: rev_rev_ident)
  with a show ?thesis by (simp add: slice_def)
next
  assume "\<exists>j < length s. LastIndex s [c] = int j \<and> s ! j = c \<and> c \<notin> set (drop (Suc j) s)"
  then obtain j where j: "j < length s" "LastIndex s [c] = int j" "s ! j = c"
      "c \<notin> set (drop (Suc j) s)" by blast
  have "s = take j s @ s ! j # drop (Suc j) s" using j(1) by (rule id_take_nth_drop)
  then have "rev s = rev (drop (Suc j) s) @ c # rev (take j s)"
    using j(3) by (metis rev.simps(2) rev_append append.assoc append_Cons append_Nil)
  moreover have "takeWhile (\<lambda>x. x \<noteq> c) (rev (drop (Suc j) s) @ c # rev (take j s))
      = rev (drop (Suc j) s)"
  proof -
    have "takeWhile (\<lambda>x. x \<noteq> c) (rev (drop (Suc j) s) @ c # rev (take j s))
        = takeWhile (\<lambda>x. x \<noteq> c) (rev (drop (Suc j) s))"
      by (rule takeWhile_tail) simp
    also have "\<dots> = rev (drop (Suc j) s)"
      by (intro takeWhile_eq_all_conv [THEN iffD2]) (use j(4) in auto)
    finally show ?thesis .
  qed
  ultimately have "takeWhile (\<lambda>x. x \<noteq> c) (rev s) = rev (drop (Suc j) s)"
    by simp
  with j show ?thesis by (simp add: slice_def afterFinal_def nat_add_distrib)
qed

lemma slice_beforeFinal:
  assumes "c \<in> set s"
  shows "slice s 0 (nat (LastIndex s [c])) = Some (beforeFinal c s)"
proof -
  from LastIndex_single [of s c] assms
  obtain j where j: "j < length s" "LastIndex s [c] = int j" "s ! j = c"
      "c \<notin> set (drop (Suc j) s)" by blast
  have "s = take j s @ s ! j # drop (Suc j) s" using j(1) by (rule id_take_nth_drop)
  then have "rev s = rev (drop (Suc j) s) @ c # rev (take j s)"
    using j(3) by (metis rev.simps(2) rev_append append.assoc append_Cons append_Nil)
  moreover have "dropWhile (\<lambda>x. x \<noteq> c) (rev (drop (Suc j) s) @ c # rev (take j s))
      = dropWhile (\<lambda>x. x \<noteq> c) (c # rev (take j s))"
    by (rule dropWhile_append2) (use j(4) in auto)
  ultimately have "dropWhile (\<lambda>x. x \<noteq> c) (rev s) = c # rev (take j s)"
    by simp
  with j assms show ?thesis by (simp add: slice_def beforeFinal_def)
qed

lemma strings_Split_not_Nil: "strings_Split s sep \<noteq> []"
  by (induction s) (auto split: list.splits)

lemma length_strings_Split: "length (strings_Split s sep) = Suc (length (filter (\<lambda>x. x = sep) s))"
  by (induction s) (auto split: list.splits simp: strings_Split_not_Nil)

lemma hd_strings_Split: "hd (strings_Split s sep) = beforeFirst sep s"
  by (induction s) (auto split: list.splits simp: strings_Split_not_Nil beforeFirst_def)

lemma index0_strings_Split: "index (strings_Split s sep) 0 = Some (beforeFirst sep s)"
  using hd_strings_Split [of s sep] strings_Split_not_Nil [of s sep]
  by (cases "strings_Split s sep") (simp_all add: index_def)

subsection \<open>Names and structural paths\<close>

lemma test_friendlyName_eq: "test_friendlyName U t = Some (friendly U t)"
proof (cases "hasDisplayName t")
  case True
  then show ?thesis by (simp add: test_friendlyName_def friendly_def)
next
  case False
  let ?m = "afterFinal CHR ''.'' (test_Name t)"
  have a: "slice (test_Name t) (nat (LastIndex (test_Name t) ''.'' + 1)) (length (test_Name t))
      = Some ?m"
    by (rule slice_afterFinal)
  have b: "(if ContainsRune ?m CHR ''('' then slice ?m 0 (nat (LastIndex ?m ''(''))
            else Some ?m) = Some (methodName (test_Name t))"
    using slice_beforeFinal [of "CHR ''(''" ?m]
    by (simp add: ContainsRune_def methodName_def Let_def)
  show ?thesis
    using False
    by (simp add: test_friendlyName_def friendly_def a b Split_Some humanize_def)
qed

lemma groupsLoop_eq: "groupsLoop U ps groupName = Some (groupName @ map (humanize U) ps)"
  by (induction ps arbitrary: groupName) (simp_all add: Split_Some humanize_def)

lemma isNested_segments:
  assumes "isNested t"
  shows "2 \<le> length (strings_Split (test_Name t) CHR ''+'')"
proof -
  from assms have "CHR ''+'' \<in> set (test_Name t)"
    by (simp add: isNested_def Contains_single)
  then have "filter (\<lambda>x. x = CHR ''+'') (test_Name t) \<noteq> []"
    by (simp add: filter_empty_conv)
  then have "0 < length (filter (\<lambda>x. x = CHR ''+'') (test_Name t))"
    by (rule length_greater_0_conv [THEN iffD2])
  then show ?thesis unfolding length_strings_Split by linarith
qed

lemma groups_not_nested: "\<not> isNested t \<Longrightarrow> groups U t = Some (Slice [])"
  by (simp add: groups_def)

lemma groups_nested_eq:
  assumes "isNested t"
  shows "groups U t = Some (Slice (map (humanize U) (groupPath beforeFirst t)))"
proof -
  let ?segs = "strings_Split (test_Name t) CHR ''+''"
  have len: "2 \<le> length ?segs" by (rule isNested_segments [OF assms])
  then have ne: "?segs \<noteq> []" by auto
  have i0: "index ?segs 0 = Some (hd ?segs)"
    using ne by (simp add: index_def hd_conv_nth)
  have s1: "slice (hd ?segs) (nat (LastIndex (hd ?segs) ''.'' + 1)) (length (hd ?segs))
      = Some (afterFinal CHR ''.'' (hd ?segs))"
    by (rule slice_afterFinal)
  have "take (length ?segs - 2) (drop 1 ?segs) = butlast (tl ?segs)"
    by (simp add: butlast_conv_take drop_Suc numeral_2_eq_2)
  then have s2: "slice ?segs 1 (length ?segs - 1) = Some (butlast (tl ?segs))"
    using len by (simp add: slice_def numeral_2_eq_2 Suc_diff_Suc)
  have i1: "index ?segs (length ?segs - 1) = Some (last ?segs)"
    using ne by (simp add: index_def last_conv_nth)
  have i2: "index (strings_Split (last ?segs) CHR ''.'') 0 = Some (beforeFirst CHR ''.'' (last ?segs))"
    by (rule index0_strings_Split)
  show ?thesis
    using assms
    by (simp add: groups_def Let_def i0 s1 s2 [simplified] i1 [simplified] i2 groupsLoop_eq
        groupPath_def)
qed

lemma newTestCase_eq: "newTestCase U t = Some (caseOf U t)"
  by (cases "isNested t")
     (simp_all add: newTestCase_def caseOf_def test_friendlyName_eq groups_nested_eq groups_not_nested)

subsection \<open>Groups\<close>

lemma elems_map_slice: "elems (map_slice f s) = map f (elems s)"
  by (cases s) simp_all

lemma allCases_eq:
  "allCases g = elems (tg_Tests g) @ concat (map allCases (elems (tg_Groups g)))"
  by (cases g) (simp add: elems_map_slice)

lemma elems_append1: "elems (append1 s x) = elems s @ [x]"
  by (simp add: append1_def)

lemma findGroup_Some: "findGroup nn gs = Some i \<Longrightarrow> i < length gs"
  by (induction gs arbitrary: i) (auto split: if_splits)

lemma mset_concat_update:
  assumes "i < length xs"
  shows "mset (concat (map f (xs[i := y]))) + mset (f (xs ! i))
     = mset (concat (map f xs)) + mset (f y)"
proof -
  have a: "xs = take i xs @ xs ! i # drop (Suc i) xs"
    using assms by (rule id_take_nth_drop)
  have b: "xs[i := y] = take i xs @ y # drop (Suc i) xs"
    using assms by (rule upd_conv_take_nth_drop)
  have "mset (concat (map f xs))
      = mset (concat (map f (take i xs))) + mset (f (xs ! i))
        + mset (concat (map f (drop (Suc i) xs)))"
    by (subst a) simp
  moreover have "mset (concat (map f (xs[i := y])))
      = mset (concat (map f (take i xs))) + mset (f y)
        + mset (concat (map f (drop (Suc i) xs)))"
    by (subst b) simp
  ultimately show ?thesis by simp
qed

lemma tg_Name_nestLoop: "tg_Name (nestLoop tc path g) = tg_Name g"
  by (induction path arbitrary: g) (auto simp: Let_def split: option.splits)

lemma allCases_nestLoop:
  "path \<noteq> [] \<Longrightarrow> mset (allCases (nestLoop tc path g)) = mset (allCases g) + {#outCase tc#}"
proof (induction path arbitrary: g)
  case Nil
  then show ?case by simp
next
  case (Cons nn rest)
  let ?gs = "elems (tg_Groups g)"
  have step: "mset (allCases (nestLoop tc rest
        (if rest = [] then TestGroup (tg_Name s) (append1 (tg_Tests s) (outCase tc)) (tg_Groups s)
         else s)))
      = mset (allCases s) + {#outCase tc#}" for s
  proof (cases "rest = []")
    case True
    then show ?thesis by (simp add: allCases_eq [of s] elems_map_slice elems_append1)
  next
    case False
    with Cons.IH [of s] show ?thesis by simp
  qed
  show ?case
  proof (cases "findGroup nn ?gs")
    case None
    have "allCases (TestGroup nn NilSlice NilSlice) = []" by simp
    with step [of "TestGroup nn NilSlice NilSlice"] None show ?thesis
      by (simp add: Let_def allCases_eq [of g] elems_map_slice elems_append1)
  next
    case (Some i)
    then have i: "i < length ?gs" by (rule findGroup_Some)
    let ?s' = "nestLoop tc rest
        (if rest = [] then TestGroup (tg_Name (?gs ! i)) (append1 (tg_Tests (?gs ! i)) (outCase tc))
           (tg_Groups (?gs ! i))
         else ?gs ! i)"
    have "mset (concat (map allCases (?gs[i := ?s']))) + mset (allCases (?gs ! i))
        = mset (concat (map allCases ?gs)) + mset (allCases ?s')"
      by (rule mset_concat_update [OF i])
    with step [of "?gs ! i"]
    have "mset (concat (map allCases (?gs[i := ?s'])))
        = mset (concat (map allCases ?gs)) + {#outCase tc#}"
      by simp
    with Some show ?thesis
      by (simp add: Let_def allCases_eq [of g] elems_map_slice)
  qed
qed

lemma tg_Name_caseLoop: "tg_Name (caseLoop tcs g) = tg_Name g"
  by (induction tcs arbitrary: g) (simp_all add: tg_Name_nestLoop)

lemma allCases_caseLoop:
  "mset (allCases (caseLoop tcs g)) = mset (allCases g) + mset (map outCase tcs)"
proof (induction tcs arbitrary: g)
  case Nil
  then show ?case by simp
next
  case (Cons tc tcs)
  show ?case
  proof (cases "length (elems (tc_groups tc)) = 0")
    case True
    then show ?thesis
      by (simp add: Cons.IH allCases_eq [of g] elems_map_slice elems_append1)
  next
    case False
    then have "elems (tc_groups tc) \<noteq> []" by simp
    from allCases_nestLoop [OF this, of tc g] False show ?thesis
      by (simp add: Cons.IH)
  qed
qed

lemma traitGroupLoop_eq:
  "traitGroupLoop testMap ks resultSet
     = resultSet @ map (\<lambda>k. caseLoop (elems (lookup testMap k)) (TestGroup k (Slice []) NilSlice)) ks"
  by (induction ks arbitrary: resultSet) simp_all

subsection \<open>The buckets\<close>

lemma lookup_appendTo:
  "lookup (appendTo m k x) k' = (if k' = k then append1 (lookup m k) x else lookup m k')"
  by (simp add: lookup_def appendTo_def AList.update_conv')

lemma holds_cong: "holds m B \<Longrightarrow> (\<And>k. B k = B' k) \<Longrightarrow> holds m B'"
  by (simp add: holds_def)

lemma holds_appendTo:
  assumes "holds m B"
  shows "holds (appendTo m k x) (\<lambda>k'. B k' @ (if k' = k then [x] else []))"
proof -
  have d: "distinct (map fst (appendTo m k x))"
    using assms by (simp add: holds_def appendTo_def AList.distinct_update)
  have l: "\<forall>k'. elems (lookup (appendTo m k x) k') = B k' @ (if k' = k then [x] else [])"
    using assms by (simp add: holds_def lookup_appendTo elems_append1)
  have "set (map fst (appendTo m k x)) = insert k (set (map fst m))"
    using AList.dom_update [of k "append1 (lookup m k) x" m] by (simp add: appendTo_def)
  also have "\<dots> = {k'. B k' @ (if k' = k then [x] else []) \<noteq> []}"
    using assms by (auto simp: holds_def)
  finally show ?thesis using d l by (simp add: holds_def)
qed

lemma holds_traitLoop:
  "holds m B \<Longrightarrow>
   holds (traitLoop ts tc m)
     (\<lambda>k. B k @ map (\<lambda>_. tc) (filter (\<lambda>k'. k' = k) (map trait_friendlyName ts)))"
proof (induction ts arbitrary: m B)
  case Nil
  then show ?case by simp
next
  case (Cons t ts)
  from holds_appendTo [OF Cons.prems, of "trait_friendlyName t" tc]
  have "holds (traitLoop ts tc (appendTo m (trait_friendlyName t) tc))
     (\<lambda>k. (B k @ (if k = trait_friendlyName t then [tc] else []))
        @ map (\<lambda>_. tc) (filter (\<lambda>k'. k' = k) (map trait_friendlyName ts)))"
    by (rule Cons.IH)
  then have "holds (traitLoop (t # ts) tc m)
     (\<lambda>k. (B k @ (if k = trait_friendlyName t then [tc] else []))
        @ map (\<lambda>_. tc) (filter (\<lambda>k'. k' = k) (map trait_friendlyName ts)))"
    by simp
  then show ?case
    by (rule holds_cong) auto
qed

lemma holds_test:
  assumes "holds m B"
  shows "holds (traitLoop (Traits (TraitSet t)) (caseOf U t)
            (if length (Traits (TraitSet t)) = 0 then appendTo m [] (caseOf U t) else m))
          (\<lambda>k. B k @ contribution U t k)"
proof (cases "Traits (TraitSet t) = []")
  case True
  from holds_appendTo [OF assms, of "[]" "caseOf U t"] True show ?thesis
    by (auto simp: contribution_def keysOf_def elim!: holds_cong)
next
  case False
  from holds_traitLoop [OF assms, of "Traits (TraitSet t)" "caseOf U t"] False show ?thesis
    by (simp add: contribution_def keysOf_def)
qed

lemma holds_testLoop:
  "holds m B \<Longrightarrow>
   \<exists>m'. testLoop U ts m = Some m'
     \<and> holds m' (\<lambda>k. B k @ concat (map (\<lambda>t. contribution U t k) ts))"
proof (induction ts arbitrary: m B)
  case Nil
  then show ?case by simp
next
  case (Cons t ts)
  from Cons.IH [OF holds_test [OF Cons.prems, of t U]]
  show ?case by (simp add: newTestCase_eq)
qed

lemma holds_collectionLoop:
  "holds m B \<Longrightarrow>
   \<exists>m'. collectionLoop U cs m = Some m'
     \<and> holds m' (\<lambda>k. B k @ concat (map (\<lambda>t. contribution U t k) (concat (map Tests cs))))"
proof (induction cs arbitrary: m B)
  case Nil
  then show ?case by simp
next
  case (Cons c cs)
  from holds_testLoop [OF Cons.prems, of U "Tests c"]
  obtain m1 where m1: "testLoop U (Tests c) m = Some m1"
      "holds m1 (\<lambda>k. B k @ concat (map (\<lambda>t. contribution U t k) (Tests c)))"
    by blast
  from Cons.IH [OF m1(2)] m1(1) show ?case by simp
qed

lemma uniqueTraits_holds:
  "\<exists>m. uniqueTraits U a = Some (SortedKeys m, m) \<and> holds m (bucket U a)"
proof -
  have "holds [] (\<lambda>k. [])" by (simp add: holds_def lookup_def)
  from holds_collectionLoop [OF this, of U "Collections a"]
  obtain m where m: "collectionLoop U (Collections a) [] = Some m"
      "holds m (\<lambda>k. [] @ concat (map (\<lambda>t. contribution U t k)
          (concat (map Tests (Collections a)))))"
    by blast
  from m(2) have "holds m (bucket U a)"
    by (rule holds_cong) (simp add: bucket_def testsOf_def)
  with m(1) show ?thesis by (simp add: uniqueTraits_def)
qed

lemma bucket_nonempty:
  "(bucket U a k \<noteq> []) = (\<exists>t \<in> set (testsOf a). k \<in> set (keysOf t))"
  by (auto simp: bucket_def contribution_def filter_empty_conv)

lemma filter_eq_distinct:
  "distinct xs \<Longrightarrow> k \<in> set xs \<Longrightarrow> filter (\<lambda>k'. k' = k) xs = [k]"
  by (induction xs) (auto simp: filter_empty_conv)

lemma sorted_hd_Nil:
  fixes xs :: "string list"
  assumes "sorted xs" "[] \<in> set xs"
  shows "hd xs = []"
proof (cases xs)
  case Nil
  with assms show ?thesis by simp
next
  case (Cons x xs')
  with assms have "x \<le> []" by auto
  with Cons show ?thesis by simp
qed

lemma groupTests_eq:
  assumes "hasTests a"
  shows "\<exists>m. holds m (bucket U a)
     \<and> groupTests U a = Some (Slice (map (\<lambda>k. caseLoop (elems (lookup m k))
            (TestGroup k (Slice []) NilSlice)) (SortedKeys m)))"
proof -
  from uniqueTraits_holds [of U a] obtain m where
    m: "uniqueTraits U a = Some (SortedKeys m, m)" "holds m (bucket U a)" by blast
  with assms show ?thesis
    by (intro exI [of _ m]) (simp add: groupTests_def traitGroupLoop_eq)
qed

subsection \<open>Loading\<close>

lemma groupTests_total: "\<exists>gs. groupTests U a = Some (Slice gs)"
proof (cases "hasTests a")
  case True
  from groupTests_eq [OF True, of U] show ?thesis by blast
next
  case False
  then show ?thesis by (simp add: groupTests_def)
qed

lemma groupTests_no_tests: "\<not> hasTests a \<Longrightarrow> groupTests U a = Some (Slice [])"
  by (simp add: groupTests_def)

lemma assemblyLoop_eq:
  "\<exists>out. assemblyLoop U as acc = Some (acc @ out) \<and> length out = length as
     \<and> (\<forall>i < length as. \<exists>gs. asm_TestGroups (out ! i) = Slice gs
           \<and> groupTests U (as ! i) = Some (Slice gs))"
proof (induction as arbitrary: acc)
  case Nil
  then show ?case by simp
next
  case (Cons a as)
  from groupTests_total [of U a] obtain gs where gs: "groupTests U a = Some (Slice gs)" by blast
  let ?A = "\<lparr>asm_Name = paths_Name (FullName a), asm_ErrorCount = ErrorCount a,
      asm_PassedCount = PassedCount a, asm_FailedCount = FailedCount a,
      asm_NotRunCount = NotRunCount a, asm_TotalCount = Total a, asm_RunDate = RunDate a,
      asm_RunTime = RunTime a, asm_Time = Time a, asm_TimeRTF = TimeRTF a,
      asm_TestGroups = Slice gs\<rparr>"
  from Cons.IH [of "acc @ [?A]"] obtain out where
    out: "assemblyLoop U as (acc @ [?A]) = Some ((acc @ [?A]) @ out)" "length out = length as"
      "\<forall>i < length as. \<exists>gs. asm_TestGroups (out ! i) = Slice gs
           \<and> groupTests U (as ! i) = Some (Slice gs)"
    by blast
  have "\<forall>i < length (a # as). \<exists>gs'. asm_TestGroups ((?A # out) ! i) = Slice gs'
           \<and> groupTests U ((a # as) ! i) = Some (Slice gs')"
  proof (intro allI impI)
    fix i assume "i < length (a # as)"
    then show "\<exists>gs'. asm_TestGroups ((?A # out) ! i) = Slice gs'
           \<and> groupTests U ((a # as) ! i) = Some (Slice gs')"
      using gs out(3) by (cases i) auto
  qed
  with out(1,2) gs show ?case
    by (intro exI [of _ "?A # out"]) simp
qed

lemma readResult_eq:
  "\<exists>tr out. readResult U r = Some tr \<and> run_Assemblies tr = Slice out
     \<and> length out = length (Assemblies r)
     \<and> (\<forall>i < length (Assemblies r). \<exists>gs. asm_TestGroups (out ! i) = Slice gs
           \<and> groupTests U (Assemblies r ! i) = Some (Slice gs))"
proof -
  from assemblyLoop_eq [of U "Assemblies r" "[]"] obtain out where
    out: "assemblyLoop U (Assemblies r) [] = Some out" "length out = length (Assemblies r)"
      "\<forall>i < length (Assemblies r). \<exists>gs. asm_TestGroups (out ! i) = Slice gs
           \<and> groupTests U (Assemblies r ! i) = Some (Slice gs)"
    by auto
  then show ?thesis by (simp add: readResult_def)
qed

section \<open>The claims about package xunit\<close>


text \<open>
  C2, as stated, takes the terminal component to be the last segment before its final
  \<open>.\<close>. For the parameterized test \<open>"NS.Class+Nested.Method(arg: 1.5)"\<close> of type
  \<open>"NS.Class+Nested"\<close> the code yields the path \<open>["Class", "Nested"]\<close>, cutting the
  last segment at its first \<open>.\<close>; the path of the claim differs.
\<close>

theorem groups_final_dot_counterexample:
  "isNested \<lparr>test_Name = ''NS.Class+Nested.Method(arg: 1.5)'', test_Type = ''NS.Class+Nested'',
       test_Result = ''Pass'', test_Time = 0, TraitSet = \<lparr>Traits = []\<rparr>\<rparr>
   \<and> groups (\<lambda>s. s) \<lparr>test_Name = ''NS.Class+Nested.Method(arg: 1.5)'',
       test_Type = ''NS.Class+Nested'', test_Result = ''Pass'', test_Time = 0,
       TraitSet = \<lparr>Traits = []\<rparr>\<rparr>
     = Some (Slice [''Class'', ''Nested''])
   \<and> map (humanize (\<lambda>s. s)) (groupPath beforeFinal
       \<lparr>test_Name = ''NS.Class+Nested.Method(arg: 1.5)'', test_Type = ''NS.Class+Nested'',
        test_Result = ''Pass'', test_Time = 0, TraitSet = \<lparr>Traits = []\<rparr>\<rparr>)
     \<noteq> [''Class'', ''Nested'']"
  by code_simp

text \<open>
  C2, amended: for every nested test the group path is derived by splitting the name on
  \<open>+\<close>, taking the first segment after its final \<open>.\<close>, the interior segments
  literally and the last segment before its first \<open>.\<close>, each component humanized by
  the Identifier Splitter and the Phrase Composer. The test named
  \<open>"NS1.Class.SubClass.TestClass+Method+Scenario+SubScenario.Result"\<close>, of the type that
  is this name without \<open>".Result"\<close>, is nested, has the group path
  \<open>["Test class", "Method", "Scenario", "Sub scenario"]\<close> and the leaf name
  \<open>"Result"\<close>.
\<close>

theorem groups_nested:
  "isNested t = (\<not> hasDisplayName t \<and> CHR ''+'' \<in> set (test_Name t))
   \<and> (isNested t \<longrightarrow> groups U t = Some (Slice (map (humanize U) (groupPath beforeFirst t))))
   \<and> isNested \<lparr>test_Name = ''NS1.Class.SubClass.TestClass+Method+Scenario+SubScenario.Result'',
         test_Type = ''NS1.Class.SubClass.TestClass+Method+Scenario+SubScenario'',
         test_Result = r, test_Time = tm, TraitSet = ts\<rparr>
   \<and> groups U \<lparr>test_Name = ''NS1.Class.SubClass.TestClass+Method+Scenario+SubScenario.Result'',
         test_Type = ''NS1.Class.SubClass.TestClass+Method+Scenario+SubScenario'',
         test_Result = r, test_Time = tm, TraitSet = ts\<rparr>
       = Some (Slice [''Test class'', ''Method'', ''Scenario'', ''Sub scenario''])
   \<and> test_friendlyName U
         \<lparr>test_Name = ''NS1.Class.SubClass.TestClass+Method+Scenario+SubScenario.Result'',
         test_Type = ''NS1.Class.SubClass.TestClass+Method+Scenario+SubScenario'',
         test_Result = r, test_Time = tm, TraitSet = ts\<rparr>
       = Some ''Result''"
proof -
  let ?t = "\<lparr>test_Name = ''NS1.Class.SubClass.TestClass+Method+Scenario+SubScenario.Result'',
         test_Type = ''NS1.Class.SubClass.TestClass+Method+Scenario+SubScenario'',
         test_Result = r, test_Time = tm, TraitSet = ts\<rparr>"
  have a: "isNested ?t" by code_simp
  have b: "groups U ?t = Some (Slice [''Test class'', ''Method'', ''Scenario'', ''Sub scenario''])"
    by code_simp
  have c: "test_friendlyName U ?t = Some ''Result''" by code_simp
  have d: "isNested t = (\<not> hasDisplayName t \<and> CHR ''+'' \<in> set (test_Name t))"
    by (simp add: isNested_def Contains_single)
  from a b c d groups_nested_eq [of t U] show ?thesis by blast
qed

text \<open>C2, amended, at the test \<open>"NS.Outer+Inner.DoesWork"\<close> of type \<open>"NS.Outer+Inner"\<close>.\<close>

theorem groups_nested_witness:
  "isNested \<lparr>test_Name = ''NS.Outer+Inner.DoesWork'', test_Type = ''NS.Outer+Inner'',
       test_Result = ''Pass'', test_Time = 0, TraitSet = \<lparr>Traits = []\<rparr>\<rparr>
   \<and> groups (\<lambda>s. s) \<lparr>test_Name = ''NS.Outer+Inner.DoesWork'', test_Type = ''NS.Outer+Inner'',
       test_Result = ''Pass'', test_Time = 0, TraitSet = \<lparr>Traits = []\<rparr>\<rparr>
     = Some (Slice [''Outer'', ''Inner''])"
proof -
  let ?t = "\<lparr>test_Name = ''NS.Outer+Inner.DoesWork'', test_Type = ''NS.Outer+Inner'',
       test_Result = ''Pass'', test_Time = 0 :: float32, TraitSet = \<lparr>Traits = []\<rparr>\<rparr>"
  have n: "isNested ?t" by code_simp
  have p: "map (humanize (\<lambda>s. s)) (groupPath beforeFirst ?t) = [''Outer'', ''Inner'']"
    by code_simp
  from groups_nested [of ?t "\<lambda>s. s"] n p show ?thesis by simp
qed

text \<open>
  C10: a test whose type is the empty string never has a display name, is nested
  exactly when its name contains \<open>+\<close>, and has its name humanized: the friendly name
  is the method name of the raw name, split into words and recomposed.
\<close>

theorem empty_type_never_display_name:
  "test_Type t = [] \<Longrightarrow>
     \<not> hasDisplayName t
     \<and> isNested t = (CHR ''+'' \<in> set (test_Name t))
     \<and> test_friendlyName U t = Some (humanize U (methodName (test_Name t)))"
proof -
  assume e: "test_Type t = []"
  then have h: "\<not> hasDisplayName t" by (simp add: hasDisplayName_def Contains_empty)
  then have "isNested t = (CHR ''+'' \<in> set (test_Name t))"
    by (simp add: isNested_def Contains_single)
  moreover have "test_friendlyName U t = Some (humanize U (methodName (test_Name t)))"
    using h by (simp add: test_friendlyName_eq friendly_def)
  ultimately show ?thesis using h by blast
qed

text \<open>C10 at the test named \<open>"Adds two+three"\<close> with no type.\<close>

theorem empty_type_never_display_name_witness:
  "test_Type \<lparr>test_Name = ''Adds two+three'', test_Type = [], test_Result = ''Pass'',
       test_Time = 0, TraitSet = \<lparr>Traits = []\<rparr>\<rparr> = []
   \<and> \<not> hasDisplayName \<lparr>test_Name = ''Adds two+three'', test_Type = [], test_Result = ''Pass'',
       test_Time = 0, TraitSet = \<lparr>Traits = []\<rparr>\<rparr>
   \<and> isNested \<lparr>test_Name = ''Adds two+three'', test_Type = [], test_Result = ''Pass'',
       test_Time = 0, TraitSet = \<lparr>Traits = []\<rparr>\<rparr>
   \<and> test_friendlyName (\<lambda>s. s) \<lparr>test_Name = ''Adds two+three'', test_Type = [],
       test_Result = ''Pass'', test_Time = 0, TraitSet = \<lparr>Traits = []\<rparr>\<rparr>
     = Some ''Adds   two +three''"
proof -
  let ?t = "\<lparr>test_Name = ''Adds two+three'', test_Type = [], test_Result = ''Pass'',
       test_Time = 0 :: float32, TraitSet = \<lparr>Traits = []\<rparr>\<rparr>"
  have e: "test_Type ?t = []" by simp
  have p: "CHR ''+'' \<in> set (test_Name ?t)" by simp
  have f: "humanize (\<lambda>s. s) (methodName (test_Name ?t)) = ''Adds   two +three''" by code_simp
  from empty_type_never_display_name [OF e, of "\<lambda>s. s"] p f show ?thesis by simp
qed

text \<open>
  C3, as stated, has a test with N traits once in each of N groups. A test carrying the
  trait \<open>Category = Unit\<close> twice carries two traits; there is one group for them, and
  it holds the test twice. So it is for two different traits that render as the same
  key, the name \<open>"A - B"\<close> with the value \<open>"C"\<close> and the name \<open>"A"\<close> with the value
  \<open>"B - C"\<close>.
\<close>

theorem duplicate_trait_counterexample:
  "length (Traits (TraitSet
       \<lparr>test_Name = ''NS.T.Works'', test_Type = ''NS.T'', test_Result = ''Pass'', test_Time = 0,
        TraitSet = \<lparr>Traits = [\<lparr>trait_Name = ''Category'', trait_Value = ''Unit''\<rparr>,
                               \<lparr>trait_Name = ''Category'', trait_Value = ''Unit''\<rparr>]\<rparr>\<rparr>)) = 2
   \<and> groupTests (\<lambda>s. s)
       \<lparr>FullName = ''app.dll'', ErrorCount = 0, PassedCount = 1, FailedCount = 0,
        NotRunCount = 0, Total = 1, RunDate = [], RunTime = [], Time = 0, TimeRTF = [],
        Collections = [\<lparr>Tests = [
          \<lparr>test_Name = ''NS.T.Works'', test_Type = ''NS.T'', test_Result = ''Pass'', test_Time = 0,
           TraitSet = \<lparr>Traits = [\<lparr>trait_Name = ''Category'', trait_Value = ''Unit''\<rparr>,
                                  \<lparr>trait_Name = ''Category'', trait_Value = ''Unit''\<rparr>]\<rparr>\<rparr>]\<rparr>]\<rparr>
     = Some (Slice [TestGroup ''Category - Unit''
          (Slice [\<lparr>tc_Name = ''Works'', tc_Result = ''Pass'', tc_Time = 0, tc_groups = NilSlice\<rparr>,
                  \<lparr>tc_Name = ''Works'', tc_Result = ''Pass'', tc_Time = 0, tc_groups = NilSlice\<rparr>])
          NilSlice])
   \<and> groupTests (\<lambda>s. s)
       \<lparr>FullName = ''app.dll'', ErrorCount = 0, PassedCount = 1, FailedCount = 0,
        NotRunCount = 0, Total = 1, RunDate = [], RunTime = [], Time = 0, TimeRTF = [],
        Collections = [\<lparr>Tests = [
          \<lparr>test_Name = ''NS.T.Works'', test_Type = ''NS.T'', test_Result = ''Pass'', test_Time = 0,
           TraitSet = \<lparr>Traits = [\<lparr>trait_Name = ''A - B'', trait_Value = ''C''\<rparr>,
                                  \<lparr>trait_Name = ''A'', trait_Value = ''B - C''\<rparr>]\<rparr>\<rparr>]\<rparr>]\<rparr>
     = Some (Slice [TestGroup ''A - B - C''
          (Slice [\<lparr>tc_Name = ''Works'', tc_Result = ''Pass'', tc_Time = 0, tc_groups = NilSlice\<rparr>,
                  \<lparr>tc_Name = ''Works'', tc_Result = ''Pass'', tc_Time = 0, tc_groups = NilSlice\<rparr>])
          NilSlice])"
  by code_simp

text \<open>
  C3, amended: for every assembly with at least one test \<open>groupTests\<close> returns the
  top-level groups; their names are the rendered keys \<open>"TraitName - TraitValue"\<close> of
  the traits of the tests, the empty string for the tests without traits, each key once,
  in ascending lexicographic order, so the group of the empty string is first; the test
  cases in and below the group of a key are those of the bucket of the key, to which
  every test adds one entry for each of its traits rendered as the key; so a test whose
  rendered keys are pairwise distinct is exactly once in the bucket of each of them.
\<close>

theorem groupTests_buckets:
  "hasTests a \<Longrightarrow>
   \<exists>gs. groupTests U a = Some (Slice gs)
     \<and> sorted (map tg_Name gs) \<and> distinct (map tg_Name gs)
     \<and> set (map tg_Name gs) = (\<Union>t \<in> set (testsOf a). set (keysOf t))
     \<and> ([] \<in> set (map tg_Name gs) \<longrightarrow> tg_Name (hd gs) = [])
     \<and> (\<forall>g \<in> set gs. mset (allCases g) = mset (map outCase (bucket U a (tg_Name g))))
     \<and> (\<forall>t \<in> set (testsOf a). \<forall>k \<in> set (keysOf t).
           distinct (keysOf t) \<longrightarrow> contribution U t k = [caseOf U t])"
proof -
  assume h: "hasTests a"
  from groupTests_eq [OF h, of U] obtain m where
    m: "holds m (bucket U a)"
    and g: "groupTests U a = Some (Slice (map (\<lambda>k. caseLoop (elems (lookup m k))
            (TestGroup k (Slice []) NilSlice)) (SortedKeys m)))"
    by blast
  let ?gs = "map (\<lambda>k. caseLoop (elems (lookup m k)) (TestGroup k (Slice []) NilSlice))
      (SortedKeys m)"
  have names: "map tg_Name ?gs = SortedKeys m"
    by (simp add: tg_Name_caseLoop comp_def)
  have s: "sorted (map tg_Name ?gs)"
    unfolding names by (simp add: SortedKeys_def)
  have d: "distinct (map tg_Name ?gs)"
    unfolding names using m by (simp add: SortedKeys_def holds_def)
  have k: "set (map tg_Name ?gs) = (\<Union>t \<in> set (testsOf a). set (keysOf t))"
    unfolding names using m by (auto simp: SortedKeys_def holds_def bucket_nonempty)
  have f: "[] \<in> set (map tg_Name ?gs) \<longrightarrow> tg_Name (hd ?gs) = []"
  proof
    assume e: "[] \<in> set (map tg_Name ?gs)"
    then have "?gs \<noteq> []" by auto
    then have "tg_Name (hd ?gs) = hd (map tg_Name ?gs)" by (simp add: hd_map)
    also have "\<dots> = []" by (rule sorted_hd_Nil [OF s e])
    finally show "tg_Name (hd ?gs) = []" .
  qed
  have c: "\<forall>g \<in> set ?gs. mset (allCases g) = mset (map outCase (bucket U a (tg_Name g)))"
  proof
    fix g assume "g \<in> set ?gs"
    then obtain k where g: "g = caseLoop (elems (lookup m k)) (TestGroup k (Slice []) NilSlice)"
      by auto
    have "elems (lookup m k) = bucket U a k" using m by (simp add: holds_def)
    with g show "mset (allCases g) = mset (map outCase (bucket U a (tg_Name g)))"
      by (simp add: allCases_caseLoop tg_Name_caseLoop)
  qed
  have o: "\<forall>t \<in> set (testsOf a). \<forall>k \<in> set (keysOf t).
           distinct (keysOf t) \<longrightarrow> contribution U t k = [caseOf U t]"
  proof (intro ballI impI)
    fix t k assume "k \<in> set (keysOf t)" "distinct (keysOf t)"
    then have "filter (\<lambda>k'. k' = k) (keysOf t) = [k]"
      by (simp add: filter_eq_distinct)
    then show "contribution U t k = [caseOf U t]" by (simp add: contribution_def)
  qed
  from g s d k f c o show ?thesis by blast
qed

text \<open>
  C3, amended, at an assembly of a test without traits and a test with the traits
  \<open>Timing = Slow\<close> and \<open>Category = Unit\<close>.
\<close>

theorem groupTests_buckets_witness:
  "hasTests
       \<lparr>FullName = ''app.dll'', ErrorCount = 0, PassedCount = 2, FailedCount = 0,
        NotRunCount = 0, Total = 2, RunDate = [], RunTime = [], Time = 0, TimeRTF = [],
        Collections = [\<lparr>Tests = [
          \<lparr>test_Name = ''Plain test'', test_Type = ''NS'', test_Result = ''Pass'', test_Time = 0,
           TraitSet = \<lparr>Traits = []\<rparr>\<rparr>,
          \<lparr>test_Name = ''NS.T.Works'', test_Type = ''NS.T'', test_Result = ''Pass'', test_Time = 0,
           TraitSet = \<lparr>Traits = [\<lparr>trait_Name = ''Timing'', trait_Value = ''Slow''\<rparr>,
                                  \<lparr>trait_Name = ''Category'', trait_Value = ''Unit''\<rparr>]\<rparr>\<rparr>]\<rparr>]\<rparr>
   \<and> groupTests (\<lambda>s. s)
       \<lparr>FullName = ''app.dll'', ErrorCount = 0, PassedCount = 2, FailedCount = 0,
        NotRunCount = 0, Total = 2, RunDate = [], RunTime = [], Time = 0, TimeRTF = [],
        Collections = [\<lparr>Tests = [
          \<lparr>test_Name = ''Plain test'', test_Type = ''NS'', test_Result = ''Pass'', test_Time = 0,
           TraitSet = \<lparr>Traits = []\<rparr>\<rparr>,
          \<lparr>test_Name = ''NS.T.Works'', test_Type = ''NS.T'', test_Result = ''Pass'', test_Time = 0,
           TraitSet = \<lparr>Traits = [\<lparr>trait_Name = ''Timing'', trait_Value = ''Slow''\<rparr>,
                                  \<lparr>trait_Name = ''Category'', trait_Value = ''Unit''\<rparr>]\<rparr>\<rparr>]\<rparr>]\<rparr>
     = Some (Slice
         [TestGroup [] (Slice [\<lparr>tc_Name = ''Plain test'', tc_Result = ''Pass'', tc_Time = 0,
                                tc_groups = NilSlice\<rparr>]) NilSlice,
          TestGroup ''Category - Unit''
            (Slice [\<lparr>tc_Name = ''Works'', tc_Result = ''Pass'', tc_Time = 0,
                     tc_groups = NilSlice\<rparr>]) NilSlice,
          TestGroup ''Timing - Slow''
            (Slice [\<lparr>tc_Name = ''Works'', tc_Result = ''Pass'', tc_Time = 0,
                     tc_groups = NilSlice\<rparr>]) NilSlice])
   \<and> sorted [[], ''Category - Unit'', ''Timing - Slow'']"
proof -
  let ?a = "\<lparr>FullName = ''app.dll'', ErrorCount = 0, PassedCount = 2, FailedCount = 0,
        NotRunCount = 0, Total = 2, RunDate = [], RunTime = [], Time = 0 :: float32, TimeRTF = [],
        Collections = [\<lparr>Tests = [
          \<lparr>test_Name = ''Plain test'', test_Type = ''NS'', test_Result = ''Pass'', test_Time = 0,
           TraitSet = \<lparr>Traits = []\<rparr>\<rparr>,
          \<lparr>test_Name = ''NS.T.Works'', test_Type = ''NS.T'', test_Result = ''Pass'', test_Time = 0,
           TraitSet = \<lparr>Traits = [\<lparr>trait_Name = ''Timing'', trait_Value = ''Slow''\<rparr>,
                                  \<lparr>trait_Name = ''Category'', trait_Value = ''Unit''\<rparr>]\<rparr>\<rparr>]\<rparr>]\<rparr>"
  let ?G = "[TestGroup [] (Slice [\<lparr>tc_Name = ''Plain test'', tc_Result = ''Pass'', tc_Time = 0 :: float32,
                                tc_groups = NilSlice\<rparr>]) NilSlice,
          TestGroup ''Category - Unit''
            (Slice [\<lparr>tc_Name = ''Works'', tc_Result = ''Pass'', tc_Time = 0,
                     tc_groups = NilSlice\<rparr>]) NilSlice,
          TestGroup ''Timing - Slow''
            (Slice [\<lparr>tc_Name = ''Works'', tc_Result = ''Pass'', tc_Time = 0,
                     tc_groups = NilSlice\<rparr>]) NilSlice]"
  have h: "hasTests ?a" by code_simp
  have e: "groupTests (\<lambda>s. s) ?a = Some (Slice ?G)" by code_simp
  from groupTests_buckets [OF h, of "\<lambda>s. s"] obtain gs where
    gs: "groupTests (\<lambda>s. s) ?a = Some (Slice gs)" "sorted (map tg_Name gs)" by blast
  from gs(1) e have "gs = ?G" by simp
  with gs(2) have "sorted [[], ''Category - Unit'', ''Timing - Slow'']" by simp
  with h e show ?thesis by blast
qed



text \<open>
  C8: when \<open>"<assemblies />"\<close> decodes to the tree without attributes and assemblies,
  \<open>Load\<close> succeeds with a \<open>TestRun\<close> whose \<open>Assemblies\<close> is an empty slice, not
  \<open>nil\<close>; \<open>readResult\<close> always returns, with a non-nil slice of as many assemblies as
  the tree has, each with a non-nil slice of groups that is empty when the assembly has
  no test in any collection; and \<open>groupTests\<close> of such an assembly is the empty non-nil
  slice.
\<close>

theorem empty_not_nil:
  "(xmlDecode ''<assemblies />'' = Tree zeroResult
      \<longrightarrow> Load U xmlDecode ''<assemblies />''
            = Some (\<lparr>run_Computer = [], run_User = [], run_StartTimeRTF = [],
                  run_EndTimeRTF = [], run_Timestamp = [], run_Assemblies = Slice []\<rparr>, None))
   \<and> (\<exists>tr out. readResult U r = Some tr \<and> run_Assemblies tr = Slice out
         \<and> length out = length (Assemblies r)
         \<and> (\<forall>i < length (Assemblies r). \<exists>gs. asm_TestGroups (out ! i) = Slice gs
               \<and> (\<not> hasTests (Assemblies r ! i) \<longrightarrow> gs = [])))
   \<and> (\<not> hasTests a \<longrightarrow> groupTests U a = Some (Slice []))"
proof -
  have a: "xmlDecode ''<assemblies />'' = Tree zeroResult
      \<longrightarrow> Load U xmlDecode ''<assemblies />''
            = Some (\<lparr>run_Computer = [], run_User = [], run_StartTimeRTF = [],
                  run_EndTimeRTF = [], run_Timestamp = [], run_Assemblies = Slice []\<rparr>, None)"
    by (simp add: Load_def unmarshal_def readResult_def zeroResult_def)
  from readResult_eq [of U r] obtain tr out where
    t: "readResult U r = Some tr" "run_Assemblies tr = Slice out"
      "length out = length (Assemblies r)"
      "\<forall>i < length (Assemblies r). \<exists>gs. asm_TestGroups (out ! i) = Slice gs
           \<and> groupTests U (Assemblies r ! i) = Some (Slice gs)"
    by blast
  have "\<forall>i < length (Assemblies r). \<exists>gs. asm_TestGroups (out ! i) = Slice gs
               \<and> (\<not> hasTests (Assemblies r ! i) \<longrightarrow> gs = [])"
  proof (intro allI impI)
    fix i assume "i < length (Assemblies r)"
    with t(4) obtain gs where gs: "asm_TestGroups (out ! i) = Slice gs"
        "groupTests U (Assemblies r ! i) = Some (Slice gs)" by blast
    then have "\<not> hasTests (Assemblies r ! i) \<longrightarrow> gs = []"
      by (auto simp: groupTests_no_tests)
    with gs(1) show "\<exists>gs. asm_TestGroups (out ! i) = Slice gs
               \<and> (\<not> hasTests (Assemblies r ! i) \<longrightarrow> gs = [])" by blast
  qed
  with t(1,2,3) have b: "\<exists>tr out. readResult U r = Some tr \<and> run_Assemblies tr = Slice out
         \<and> length out = length (Assemblies r)
         \<and> (\<forall>i < length (Assemblies r). \<exists>gs. asm_TestGroups (out ! i) = Slice gs
               \<and> (\<not> hasTests (Assemblies r ! i) \<longrightarrow> gs = []))"
    by blast
  have c: "\<not> hasTests a \<longrightarrow> groupTests U a = Some (Slice [])"
    by (simp add: groupTests_no_tests)
  from a b c show ?thesis by blast
qed

text \<open>
  C8 at the document \<open>"<assemblies />"\<close> and at the assembly of the package's test that
  has a collection without tests.
\<close>

theorem empty_not_nil_witness:
  "(\<lambda>rdr. Tree zeroResult) ''<assemblies />'' = Tree zeroResult
   \<and> Load (\<lambda>s. s) (\<lambda>rdr. Tree zeroResult) ''<assemblies />''
       = Some (\<lparr>run_Computer = [], run_User = [], run_StartTimeRTF = [],
                run_EndTimeRTF = [], run_Timestamp = [], run_Assemblies = Slice []\<rparr>, None)
   \<and> \<not> hasTests \<lparr>FullName = ''~/parent/sub/app.dll'', ErrorCount = 1, PassedCount = 3,
         FailedCount = 2, NotRunCount = 4, Total = 5, RunDate = ''07/10/2023'',
         RunTime = ''20:53:19'', Time = 0, TimeRTF = ''2000-12-01'',
         Collections = [\<lparr>Tests = []\<rparr>]\<rparr>
   \<and> groupTests (\<lambda>s. s) \<lparr>FullName = ''~/parent/sub/app.dll'', ErrorCount = 1, PassedCount = 3,
         FailedCount = 2, NotRunCount = 4, Total = 5, RunDate = ''07/10/2023'',
         RunTime = ''20:53:19'', Time = 0, TimeRTF = ''2000-12-01'',
         Collections = [\<lparr>Tests = []\<rparr>]\<rparr> = Some (Slice [])"
proof -
  let ?a = "\<lparr>FullName = ''~/parent/sub/app.dll'', ErrorCount = 1, PassedCount = 3,
         FailedCount = 2, NotRunCount = 4, Total = 5, RunDate = ''07/10/2023'',
         RunTime = ''20:53:19'', Time = 0 :: float32, TimeRTF = ''2000-12-01'',
         Collections = [\<lparr>Tests = []\<rparr>]\<rparr>"
  have n: "\<not> hasTests ?a" by (simp add: hasTests_def)
  from empty_not_nil [of "\<lambda>rdr. Tree zeroResult" "\<lambda>s. s" zeroResult ?a] n
  show ?thesis by simp
qed

end
